theory Spec2Isabelle
  imports Complex_Main "HOL-Library.Word"
begin

section \<open>JavaScript strings\<close>

text \<open>
  A JavaScript string is a sequence of UTF-16 code units; \<open>length\<close> counts code units and a
  regular expression without the \<open>u\<close> flag matches code units. Narration text is therefore a
  list of 16-bit words. \<open>js\<close> embeds an ASCII literal.
\<close>

type_synonym jschar = "16 word"
type_synonym jsstring = "jschar list"

definition js :: "string \<Rightarrow> jsstring" where
  "js s = map (\<lambda>c. of_nat (of_char c)) s"

definition SP :: jschar where
  "SP = 0x20"

text \<open>
  The class \<open>\s\<close> of a regular expression, which is also what \<open>String.prototype.trim\<close> strips:
  TAB, LF, VT, FF, CR, SPACE, NBSP, U+1680, U+2000..U+200A, U+2028, U+2029, U+202F, U+205F,
  U+3000 and U+FEFF.
\<close>

definition is_ws :: "jschar \<Rightarrow> bool" where
  "is_ws c \<longleftrightarrow> c = 0x9 \<or> c = 0xA \<or> c = 0xB \<or> c = 0xC \<or> c = 0xD \<or> c = 0x20 \<or> c = 0xA0
     \<or> c = 0x1680 \<or> (0x2000 \<le> c \<and> c \<le> 0x200A) \<or> c = 0x2028 \<or> c = 0x2029
     \<or> c = 0x202F \<or> c = 0x205F \<or> c = 0x3000 \<or> c = 0xFEFF"

text \<open>\<open>text.replace(/\s+/g, ' ')\<close>: every maximal run of whitespace becomes one space.\<close>

function collapse_ws :: "jsstring \<Rightarrow> jsstring" where
  "collapse_ws [] = []"
| "collapse_ws (c # cs) =
     (if is_ws c then SP # collapse_ws (dropWhile is_ws cs) else c # collapse_ws cs)"
  by pat_completeness auto
termination
  by (relation "measure length") (auto simp: le_imp_less_Suc length_dropWhile_le)

text \<open>\<open>s.trim()\<close>\<close>

definition trim :: "jsstring \<Rightarrow> jsstring" where
  "trim s = rev (dropWhile is_ws (rev (dropWhile is_ws s)))"

text \<open>\<open>chunks.join(' ')\<close>\<close>

fun join_sp :: "jsstring list \<Rightarrow> jsstring" where
  "join_sp [] = []"
| "join_sp (x # xs) = x @ concat (map ((#) SP) xs)"

text \<open>
  \<open>s.split(' ')\<close>: the pieces between single spaces, empty pieces included
  (\<open>''.split(' ')\<close> is \<open>['']\<close>). The last case of the inner \<open>case\<close> cannot occur: the result
  is never empty.
\<close>

fun split_sp :: "jsstring \<Rightarrow> jsstring list" where
  "split_sp [] = [[]]"
| "split_sp (c # cs) =
     (if c = SP then [] # split_sp cs
      else (case split_sp cs of w # ws \<Rightarrow> (c # w) # ws | [] \<Rightarrow> [[c]]))"

section \<open>The sentence matcher\<close>

text \<open>The class \<open>[.!?]\<close>.\<close>

definition is_term :: "jschar \<Rightarrow> bool" where
  "is_term c \<longleftrightarrow> c = 0x2E \<or> c = 0x21 \<or> c = 0x3F"

text \<open>
  \<open>normalized.match(/[^.!?]+[.!?]+|[^.!?]+$/g)\<close>, with \<open>null\<close> as the empty list. A match
  cannot start at a terminator, so the scan skips the terminators in front of it. From a
  non-terminator the first alternative takes the longest run of non-terminators and then the
  longest run of terminators, which is not empty unless the input ends there; at the end of
  the input the second alternative matches the same run. The next match starts right after.
\<close>

function sentenceMatches :: "jsstring \<Rightarrow> jsstring list" where
  "sentenceMatches s =
     (let s1 = dropWhile is_term s in
      if s1 = [] then []
      else let body = takeWhile (\<lambda>c. \<not> is_term c) s1;
               r1 = dropWhile (\<lambda>c. \<not> is_term c) s1;
               stops = takeWhile is_term r1;
               r2 = dropWhile is_term r1
           in (body @ stops) # sentenceMatches r2)"
  by pat_completeness auto
termination
proof (relation "measure length", simp, goal_cases)
  case (1 s s1 body r1 stops r2)
  from 1 have ne: "dropWhile is_term s \<noteq> []" by simp
  then have "\<not> is_term (hd (dropWhile is_term s))" by (rule hd_dropWhile)
  then have "length (dropWhile (\<lambda>c. \<not> is_term c) (dropWhile is_term s))
      < length (dropWhile is_term s)"
    using ne by (cases "dropWhile is_term s") (simp_all add: le_imp_less_Suc length_dropWhile_le)
  moreover have "length r2 \<le> length (dropWhile (\<lambda>c. \<not> is_term c) (dropWhile is_term s))"
    using 1 by (simp add: length_dropWhile_le)
  moreover have "length (dropWhile is_term s) \<le> length s" by (rule length_dropWhile_le)
  ultimately show ?case by simp
qed

declare sentenceMatches.simps [simp del]

section \<open>\<open>_buildSpeechChunks\<close>\<close>

text \<open>
  The body of \<open>trimmed.split(' ').forEach((word) => ...)\<close> on the pair of \<open>chunks\<close> and
  \<open>segment\<close>.
\<close>

definition word_step :: "nat \<Rightarrow> jsstring \<Rightarrow> jsstring list \<times> jsstring \<Rightarrow> jsstring list \<times> jsstring" where
  "word_step maxLength word st =
     (case st of (chunks, segment) \<Rightarrow>
        if word = [] then (chunks, segment)
        else if length (trim (segment @ SP # word)) \<le> maxLength
        then (chunks, if segment \<noteq> [] then segment @ SP # word else word)
        else (if segment \<noteq> [] then chunks @ [segment] else chunks, word))"

text \<open>
  The body of \<open>sentenceMatches.forEach((sentence) => ...)\<close> on the pair of \<open>chunks\<close> and
  \<open>current\<close>.
\<close>

definition sentence_step :: "nat \<Rightarrow> jsstring \<Rightarrow> jsstring list \<times> jsstring \<Rightarrow> jsstring list \<times> jsstring" where
  "sentence_step maxLength sentence st =
     (case st of (chunks, current) \<Rightarrow>
        let trimmed = trim sentence in
        if trimmed = [] then (chunks, current)
        else if length (trim (current @ SP # trimmed)) \<le> maxLength
        then (chunks, if current \<noteq> [] then current @ SP # trimmed else trimmed)
        else
          let chunks1 = (if current \<noteq> [] then chunks @ [current] else chunks);
              current1 = (if current \<noteq> [] then [] else current)
          in if length trimmed \<le> maxLength then (chunks1, trimmed)
             else (case fold (word_step maxLength) (split_sp trimmed) (chunks1, []) of
                     (chunks2, segment) \<Rightarrow>
                       (chunks2, if segment \<noteq> [] then segment else current1)))"

definition buildSpeechChunks :: "jsstring \<Rightarrow> nat \<Rightarrow> jsstring list" where
  "buildSpeechChunks text maxLength =
     (let normalized = trim (collapse_ws text) in
      if normalized = [] then []
      else if length normalized \<le> maxLength then [normalized]
      else
        let ms = sentenceMatches normalized;
            sentences = (if ms = [] then [normalized] else ms)
        in (case fold (sentence_step maxLength) sentences ([], []) of
              (chunks, current) \<Rightarrow> if current \<noteq> [] then chunks @ [current] else chunks))"

section \<open>The player\<close>

definition SPEECH_CHUNK_MAX_CHARS :: nat where
  "SPEECH_CHUNK_MAX_CHARS = 1200"

text \<open>
  An entry of the queue. Of the fields the application puts on an article the player reads
  \<open>pageid\<close>, \<open>title\<close> and \<open>_locationContext\<close> (absent until \<open>onTrackChange\<close> attaches it).
\<close>

record article =
  pageid :: nat
  title :: jsstring
  locationContext :: "jsstring option"

text \<open>What \<open>await fetchArticleExtract(article.pageid)\<close> produces: a rejection with the error's
  message, or a value that is \<open>null\<close> or a string.\<close>

datatype fetch_result = FetchRejected string | FetchResolved "jsstring option"

text \<open>The flags of \<open>window.speechSynthesis\<close> at the moment a handler reads them.\<close>

record synth =
  speaking :: bool
  pending :: bool
  paused :: bool

text \<open>The timers the player sets apart from the inter-track pause, with the variables their
  callbacks close over: the attempt id, and the text or the chunk index.\<close>

datatype timer =
    SpeakDelay nat jsstring
  | NextChunk nat nat
  | StartSpeaking nat nat
  | ResumeCheck nat nat

text \<open>
  The calls the player makes to the outside, in the order it makes them: the three
  notifications (\<open>StateChange playing currentIndex queueLength\<close>;
  \<open>StateCompleted playing completed message\<close> for the end of the tour;
  \<open>TrackChange article index total\<close>; \<open>Error message\<close>), the content fetch
  (\<open>Fetch attempt article\<close>: \<open>fetchArticleExtract(article.pageid)\<close>, awaited by that attempt
  of \<open>_playArticle(article)\<close>), the media-session metadata, the calls on the speech engine
  (\<open>SynthSpeak attempt index text\<close> passes the utterance built for that attempt and chunk)
  and \<open>setTimeout\<close>.
\<close>

datatype effect =
    StateChange bool nat nat
  | StateCompleted bool bool string
  | TrackChange article nat nat
  | Error string
  | Fetch nat article
  | MediaMetadata jsstring nat nat
  | SynthCancel
  | SynthSpeak nat nat jsstring
  | SynthResume
  | SetTimeout timer

text \<open>
  The fields of \<open>TourPlayer\<close>. Handles are modelled by whether they are set:
  \<open>speechSynth\<close>, \<open>audioContext\<close>, \<open>silentSource\<close>, \<open>monitorInterval\<close> and the three
  callbacks. \<open>voices\<close> is the number of loaded voices and \<open>currentUtterance\<close> the attempt,
  chunk index and text the utterance was built for. \<open>mediaSession\<close> is
  \<open>'mediaSession' in navigator\<close>.

  Three fields belong to the event loop rather than to the class: \<open>settled\<close> holds the attempts
  whose \<open>_speak\<close> promise has been resolved or rejected (a promise settles once),
  \<open>advanceTimers\<close> counts the pending timers of \<open>_scheduleNext\<close> (the class keeps no handle
  on them), \<open>trace\<close> records the effects and \<open>console\<close> the messages of \<open>console.warn\<close>
  (the message text, without the values logged after it). The other console output
  (\<open>log\<close>, \<open>debug\<close>, \<open>error\<close>) is left out.

  The constructor does not initialise \<open>queue\<close>; until \<open>loadQueue\<close> or \<open>updateQueue\<close> has
  run, every method that reads \<open>this.queue.length\<close> throws a TypeError. The model covers the
  player from that first call on, so \<open>queue\<close> is a list.
\<close>

record player =
  queue :: "article list"
  currentIndex :: nat
  isPlaying :: bool
  autoPlayEnabled :: bool
  manuallyStopped :: bool
  isFirefox :: bool
  speechSynth :: bool
  currentUtterance :: "(nat \<times> nat \<times> jsstring) option"
  voices :: nat
  monitorInterval :: bool
  speechStartTime :: "nat option"
  expectedDuration :: "real option"
  speechChunks :: "jsstring list"
  chunkIndex :: nat
  lastChunkEndTime :: "nat option"
  isChunking :: bool
  playbackId :: nat
  activePlayId :: nat
  audioContext :: bool
  silentSource :: bool
  mediaSession :: bool
  onStateChange :: bool
  onTrackChange :: bool
  onError :: bool
  settled :: "nat set"
  advanceTimers :: nat
  trace :: "effect list"
  console :: "string list"

definition emit :: "effect \<Rightarrow> player \<Rightarrow> player" where
  "emit e s = s\<lparr>trace := trace s @ [e]\<rparr>"

definition warn :: "string \<Rightarrow> player \<Rightarrow> player" where
  "warn m s = s\<lparr>console := console s @ [m]\<rparr>"

text \<open>The constructor, given what the browser offers; the callbacks are assigned by the
  application afterwards. \<open>queue\<close> stands for the field \<open>loadQueue\<close> is about to set.\<close>

definition new_player :: "bool \<Rightarrow> bool \<Rightarrow> nat \<Rightarrow> bool \<Rightarrow> bool \<Rightarrow> player" where
  "new_player firefox synthesis engineVoices audio media =
     \<lparr>queue = [], currentIndex = 0, isPlaying = False, autoPlayEnabled = True,
      manuallyStopped = False, isFirefox = firefox, speechSynth = synthesis,
      currentUtterance = None, voices = (if synthesis then engineVoices else 0),
      monitorInterval = False, speechStartTime = None, expectedDuration = None,
      speechChunks = [], chunkIndex = 0, lastChunkEndTime = None, isChunking = False,
      playbackId = 0, activePlayId = 0, audioContext = audio, silentSource = False,
      mediaSession = media, onStateChange = False, onTrackChange = False, onError = False,
      settled = {}, advanceTimers = 0, trace = [], console = []\<rparr>"

text \<open>\<open>loadVoices\<close> of \<open>_initializeVoices\<close>, which the engine's \<open>voiceschanged\<close> event and
  a timer run again.\<close>

definition loadVoices :: "nat \<Rightarrow> player \<Rightarrow> player" where
  "loadVoices engineVoices s = s\<lparr>voices := engineVoices\<rparr>"

text \<open>\<open>_stopSilentAudio\<close> and \<open>_startSilentAudio\<close>, for an audio context whose calls do not
  throw (the source catches what they throw and goes on).\<close>

definition stopSilentAudio :: "player \<Rightarrow> player" where
  "stopSilentAudio s = (if silentSource s then s\<lparr>silentSource := False\<rparr> else s)"

definition startSilentAudio :: "player \<Rightarrow> player" where
  "startSilentAudio s =
     (if \<not> audioContext s then s else (stopSilentAudio s)\<lparr>silentSource := True\<rparr>)"

definition loadQueue :: "article list \<Rightarrow> player \<Rightarrow> player" where
  "loadQueue articles s = s\<lparr>queue := articles, currentIndex := 0\<rparr>"

definition cancelSpeech :: "player \<Rightarrow> player" where
  "cancelSpeech s =
     (if speechSynth s then emit SynthCancel s else s)
       \<lparr>currentUtterance := None, speechChunks := [], chunkIndex := 0,
        lastChunkEndTime := None, isChunking := False\<rparr>"

definition clearMonitoring :: "player \<Rightarrow> player" where
  "clearMonitoring s = (if monitorInterval s then s\<lparr>monitorInterval := False\<rparr> else s)"

definition startMonitoring :: "player \<Rightarrow> player" where
  "startMonitoring s = s\<lparr>monitorInterval := True\<rparr>"

definition updateState :: "bool \<Rightarrow> player \<Rightarrow> player" where
  "updateState playing s =
     (if onStateChange s then emit (StateChange playing (currentIndex s) (length (queue s))) s
      else s)"

definition updateMediaMetadata :: "jsstring \<Rightarrow> player \<Rightarrow> player" where
  "updateMediaMetadata t s =
     (if mediaSession s then emit (MediaMetadata t (currentIndex s + 1) (length (queue s))) s
      else s)"

text \<open>\<open>_scheduleNext\<close> only sets the timer of the inter-track pause.\<close>

definition scheduleNext :: "player \<Rightarrow> player" where
  "scheduleNext s = s\<lparr>advanceTimers := advanceTimers s + 1\<rparr>"

text \<open>The first part of \<open>_playArticle\<close>, up to the \<open>await\<close> of the content fetch.\<close>

definition playArticle :: "article \<Rightarrow> player \<Rightarrow> player" where
  "playArticle a s =
     (let playId = playbackId s + 1;
          s1 = s\<lparr>playbackId := playId, activePlayId := playId\<rparr>;
          s2 = cancelSpeech s1;
          s3 = s2\<lparr>manuallyStopped := False\<rparr>;
          s4 = (if onTrackChange s3
                then emit (TrackChange a (currentIndex s3) (length (queue s3))) s3 else s3)
      in emit (Fetch playId a) s4)"

definition play :: "player \<Rightarrow> player" where
  "play s =
     (if length (queue s) = 0 then warn ''TourPlayer: Cannot play, queue is empty'' s
      else
        let s1 = (if currentIndex s \<ge> length (queue s) then s\<lparr>currentIndex := 0\<rparr> else s)
        in playArticle (queue s1 ! currentIndex s1) s1)"

text \<open>\<open>playTrack(index)\<close> for an integer \<open>index\<close>, negative ones included.\<close>

definition playTrack :: "int \<Rightarrow> player \<Rightarrow> player" where
  "playTrack index s =
     (if index < 0 \<or> index \<ge> int (length (queue s))
      then warn ''TourPlayer: Invalid track index:'' s
      else play (s\<lparr>currentIndex := nat index\<rparr>))"

definition stop :: "player \<Rightarrow> player" where
  "stop s =
     updateState False
       (stopSilentAudio
         (clearMonitoring
           (cancelSpeech (s\<lparr>manuallyStopped := True, activePlayId := 0\<rparr>))))"

definition "next" :: "player \<Rightarrow> player" where
  "next s =
     (if int (currentIndex s) < int (length (queue s)) - 1
      then play (s\<lparr>currentIndex := currentIndex s + 1\<rparr>) else s)"

definition previous :: "player \<Rightarrow> player" where
  "previous s =
     (if currentIndex s > 0 then play (s\<lparr>currentIndex := currentIndex s - 1\<rparr>) else s)"

text \<open>The \<open>catch\<close> block of \<open>_playArticle\<close>, with the message of the caught error.\<close>

definition playArticle_catch :: "string \<Rightarrow> player \<Rightarrow> player" where
  "playArticle_catch message s =
     (let s1 = (if onError s then emit (Error message) s else s)
      in if autoPlayEnabled s1 \<and> \<not> manuallyStopped s1 then scheduleNext s1
         else stopSilentAudio s1)"

text \<open>\<open>resolve()\<close> and \<open>reject(new Error(message))\<close> of the promise \<open>_speak\<close> returned to
  attempt \<open>playId\<close>. After a resolution \<open>_playArticle\<close> has nothing left to do; a rejection
  enters its \<open>catch\<close> block. Neither does anything to a promise that is already settled.\<close>

definition resolve :: "nat \<Rightarrow> player \<Rightarrow> player" where
  "resolve playId s = s\<lparr>settled := insert playId (settled s)\<rparr>"

definition reject :: "nat \<Rightarrow> string \<Rightarrow> player \<Rightarrow> player" where
  "reject playId message s =
     (if playId \<in> settled s then s
      else playArticle_catch message (s\<lparr>settled := insert playId (settled s)\<rparr>))"

text \<open>\<open>_handleSpeechEnd(playId)\<close>; \<open>None\<close> is the call without an argument.\<close>

definition handleSpeechEnd :: "nat option \<Rightarrow> player \<Rightarrow> player" where
  "handleSpeechEnd playId s =
     (if (case playId of None \<Rightarrow> False | Some p \<Rightarrow> p \<noteq> 0 \<and> p \<noteq> playbackId s) then s
      else
        let s1 = clearMonitoring (updateState False (s\<lparr>isPlaying := False\<rparr>))
        in if autoPlayEnabled s1 \<and> \<not> manuallyStopped s1 then scheduleNext s1 else s1)"

text \<open>The callback of the timer set by \<open>_scheduleNext\<close>, and the event loop running it: one
  pending timer is consumed; without one there is nothing to run.\<close>

definition scheduleNext_timer :: "player \<Rightarrow> player" where
  "scheduleNext_timer s =
     (if int (currentIndex s) < int (length (queue s)) - 1
      then play (s\<lparr>currentIndex := currentIndex s + 1\<rparr>)
      else
        let s1 = stopSilentAudio s
        in if onStateChange s1
           then emit (StateCompleted False True ''Completed tour of all places.'') s1
           else s1)"

definition fire_advance :: "player \<Rightarrow> player" where
  "fire_advance s =
     (if advanceTimers s = 0 then s
      else scheduleNext_timer (s\<lparr>advanceTimers := advanceTimers s - 1\<rparr>))"

text \<open>\<open>text.split(/\s+/).length\<close>: splitting at the runs of whitespace gives the pieces that
  splitting the collapsed text at its spaces gives.\<close>

definition estimateDuration :: "jsstring \<Rightarrow> real" where
  "estimateDuration t =
     (let words = length (split_sp (collapse_ws t)); adjustedWPM = 150 * 0.9
      in (real words / adjustedWPM) * 60 * 1000)"

text \<open>\<open>_startSpeaking\<close> inside \<open>speakChunk\<close>. \<open>speechSynth.speak(null)\<close> throws in the timer
  callback, which then sets no further timer.\<close>

definition startSpeaking :: "nat \<Rightarrow> nat \<Rightarrow> player \<Rightarrow> player" where
  "startSpeaking playId index s =
     (case currentUtterance s of
        None \<Rightarrow> s
      | Some (p, i, t) \<Rightarrow> emit (SetTimeout (ResumeCheck playId index)) (emit (SynthSpeak p i t) s))"

text \<open>\<open>speakChunk(index)\<close> of the attempt \<open>playId\<close>. An index past the end of \<open>speechChunks\<close>
  reads \<open>undefined\<close>, and the utterance built from it has the empty text.\<close>

definition speakChunk :: "nat \<Rightarrow> nat \<Rightarrow> synth \<Rightarrow> player \<Rightarrow> player" where
  "speakChunk playId index syn s =
     (if manuallyStopped s then resolve playId s
      else if playId \<noteq> playbackId s then resolve playId s
      else
        let chunkText = (if index < length (speechChunks s) then speechChunks s ! index else []);
            s1 = s\<lparr>chunkIndex := index, currentUtterance := Some (playId, index, chunkText)\<rparr>
        in if pending syn \<or> speaking syn
           then emit (SetTimeout (StartSpeaking playId index)) (emit SynthCancel s1)
           else startSpeaking playId index s1)"

text \<open>The callback \<open>_speak\<close> runs after \<open>SPEECH_CANCEL_DELAY_MS\<close>; \<open>engineVoices\<close> is the
  length of \<open>speechSynth.getVoices()\<close>.\<close>

definition speak_timer :: "nat \<Rightarrow> jsstring \<Rightarrow> nat \<Rightarrow> synth \<Rightarrow> player \<Rightarrow> player" where
  "speak_timer playId t engineVoices syn s =
     (let s1 = (if voices s = 0 then s\<lparr>voices := engineVoices\<rparr> else s)
      in if voices s1 = 0
         then reject playId ''No speech voices available''
                (if onError s1
                 then emit (Error ''Speech system not ready. Please tap Start again or reload the page.'') s1
                 else s1)
         else
           let chunks = buildSpeechChunks t SPEECH_CHUNK_MAX_CHARS;
               s2 = s1\<lparr>speechChunks := chunks, chunkIndex := 0, lastChunkEndTime := None,
                       isChunking := (length chunks > 1)\<rparr>
           in if length chunks = 0 then reject playId ''Speech text is empty'' s2
              else speakChunk playId 0 syn (s2\<lparr>expectedDuration := Some (estimateDuration t)\<rparr>))"

text \<open>\<open>_speak(text, playId)\<close> up to the timer.\<close>

definition speak :: "jsstring \<Rightarrow> nat \<Rightarrow> player \<Rightarrow> player" where
  "speak t playId s =
     (if \<not> speechSynth s then reject playId ''Speech synthesis not supported'' s
      else emit (SetTimeout (SpeakDelay playId t)) s)"

text \<open>\<open>_playArticle\<close> after the \<open>await\<close> of the fetch. \<open>a\<close> is the article as it is then,
  with the \<open>_locationContext\<close> the application may have attached.\<close>

definition playArticle_fetched :: "nat \<Rightarrow> article \<Rightarrow> fetch_result \<Rightarrow> player \<Rightarrow> player" where
  "playArticle_fetched playId a r s =
     (case r of
        FetchRejected message \<Rightarrow> playArticle_catch message s
      | FetchResolved None \<Rightarrow> playArticle_catch ''No content available'' s
      | FetchResolved (Some t) \<Rightarrow>
          if t = [] then playArticle_catch ''No content available'' s
          else
            let speechText = title a @ js ''. '' @ t;
                speechText1 = (case locationContext a of
                                 None \<Rightarrow> speechText
                               | Some c \<Rightarrow> if c \<noteq> [] then c @ speechText else speechText)
            in speak speechText1 playId (updateMediaMetadata (title a) s))"

text \<open>The check \<open>_startSpeaking\<close> schedules after \<open>SPEECH_RESUME_CHECK_DELAY_MS\<close>.\<close>

definition resume_check :: "nat \<Rightarrow> nat \<Rightarrow> synth \<Rightarrow> player \<Rightarrow> player" where
  "resume_check playId index syn s =
     (let s1 = (if paused syn then emit SynthResume s else s)
      in if \<not> speaking syn \<and> \<not> isPlaying s1 \<and> index = 0 \<and> playId = playbackId s1
         then
           if isFirefox s1
           then warn ''TourPlayer: Speech start status unclear (Firefox), continuing'' s1
           else reject playId ''Speech failed to start''
                  (if onError s1
                   then emit (Error ''Speech failed to start. Please tap Start again or reload the page.'') s1
                   else s1)
         else s1)"

text \<open>The callbacks \<open>speakChunk(index)\<close> of attempt \<open>playId\<close> puts on its utterance; \<open>now\<close> is
  \<open>Date.now()\<close> and \<open>err\<close> is \<open>event.error\<close>.\<close>

definition utterance_onstart :: "nat \<Rightarrow> nat \<Rightarrow> nat \<Rightarrow> player \<Rightarrow> player" where
  "utterance_onstart playId index now s =
     (if playId \<noteq> playbackId s then s
      else if index = 0
      then startSilentAudio
             (startMonitoring (updateState True (s\<lparr>isPlaying := True, speechStartTime := Some now\<rparr>)))
      else s)"

definition utterance_onend :: "nat \<Rightarrow> nat \<Rightarrow> nat \<Rightarrow> player \<Rightarrow> player" where
  "utterance_onend playId index now s =
     (if playId \<noteq> playbackId s then resolve playId s
      else
        let s1 = s\<lparr>lastChunkEndTime := Some now\<rparr>
        in if int index < int (length (speechChunks s1)) - 1
           then emit (SetTimeout (NextChunk playId (index + 1))) s1
           else resolve playId (handleSpeechEnd (Some playId) s1))"

definition utterance_onerror :: "nat \<Rightarrow> nat \<Rightarrow> string \<Rightarrow> player \<Rightarrow> player" where
  "utterance_onerror playId index err s =
     (if playId \<noteq> playbackId s then resolve playId s
      else
        let s1 = updateState False (clearMonitoring (s\<lparr>isPlaying := False\<rparr>))
        in if err \<noteq> ''canceled'' then reject playId err s1 else resolve playId s1)"

text \<open>\<open>_checkSpeechStatus\<close>; \<open>now\<close> is \<open>Date.now()\<close> and \<open>engineSpeaking\<close> is
  \<open>speechSynth.speaking\<close>. A time or duration used as a condition is false when it is
  \<open>null\<close> or \<open>0\<close>. The expected duration is a double in the source and its exact value
  here.\<close>

definition checkSpeechStatus :: "nat \<Rightarrow> bool \<Rightarrow> player \<Rightarrow> player" where
  "checkSpeechStatus now engineSpeaking s =
     (if manuallyStopped s then s
      else if isChunking s
              \<and> (case lastChunkEndTime s of
                     None \<Rightarrow> False
                   | Some ended \<Rightarrow> ended \<noteq> 0 \<and> int now - int ended < 1500) then s
      else
        let isActuallySpeaking = (speechSynth s \<and> engineSpeaking)
        in if isPlaying s \<and> \<not> isActuallySpeaking then handleSpeechEnd None s
           else
             (case (speechStartTime s, expectedDuration s) of
                (Some started, Some expected) \<Rightarrow>
                  if isPlaying s \<and> started \<noteq> 0 \<and> expected \<noteq> 0
                  then
                    if real_of_int (int now - int started) > expected + 5000
                    then handleSpeechEnd None s else s
                  else s
              | _ \<Rightarrow> s))"

text \<open>The two callers of \<open>_checkSpeechStatus\<close>: the interval set by \<open>_startMonitoring\<close>, which
  runs while it is not cleared, and the \<open>visibilitychange\<close> listener.\<close>

definition monitor_tick :: "nat \<Rightarrow> bool \<Rightarrow> player \<Rightarrow> player" where
  "monitor_tick now engineSpeaking s =
     (if monitorInterval s then checkSpeechStatus now engineSpeaking s else s)"

definition visibilitychange :: "bool \<Rightarrow> nat \<Rightarrow> bool \<Rightarrow> player \<Rightarrow> player" where
  "visibilitychange hidden now engineSpeaking s =
     (if \<not> hidden \<and> isPlaying s then checkSpeechStatus now engineSpeaking s else s)"

definition getCurrentArticle :: "player \<Rightarrow> article option" where
  "getCurrentArticle s =
     (if currentIndex s < length (queue s) then Some (queue s ! currentIndex s) else None)"

definition getIsPlaying :: "player \<Rightarrow> bool" where
  "getIsPlaying s = isPlaying s"

definition updateQueue :: "article list \<Rightarrow> player \<Rightarrow> player" where
  "updateQueue articles s =
     (let s1 = s\<lparr>queue := articles\<rparr>
      in if currentIndex s1 \<ge> length articles \<and> length articles > 0
         then s1\<lparr>currentIndex := length articles - 1\<rparr> else s1)"

text \<open>What can happen to the player: a call of a public method, or the event loop running
  one of the callbacks the player has handed out.\<close>

datatype event =
    VoicesChanged nat
  | LoadQueue "article list"
  | UpdateQueue "article list"
  | Play
  | PlayTrack int
  | Stop
  | Next
  | Previous
  | Fetched nat article fetch_result
  | SpeakDelayFired nat jsstring nat synth
  | NextChunkFired nat nat synth
  | StartSpeakingFired nat nat
  | ResumeCheckFired nat nat synth
  | UtteranceStart nat nat nat
  | UtteranceEnd nat nat nat
  | UtteranceError nat nat string
  | MonitorTick nat bool
  | VisibilityChange bool nat bool
  | AdvanceFired

fun step :: "event \<Rightarrow> player \<Rightarrow> player" where
  "step (VoicesChanged n) s = loadVoices n s"
| "step (LoadQueue q) s = loadQueue q s"
| "step (UpdateQueue q) s = updateQueue q s"
| "step Play s = play s"
| "step (PlayTrack i) s = playTrack i s"
| "step Stop s = stop s"
| "step Next s = next s"
| "step Previous s = previous s"
| "step (Fetched p a r) s = playArticle_fetched p a r s"
| "step (SpeakDelayFired p t v syn) s = speak_timer p t v syn s"
| "step (NextChunkFired p i syn) s = speakChunk p i syn s"
| "step (StartSpeakingFired p i) s = startSpeaking p i s"
| "step (ResumeCheckFired p i syn) s = resume_check p i syn s"
| "step (UtteranceStart p i now) s = utterance_onstart p i now s"
| "step (UtteranceEnd p i now) s = utterance_onend p i now s"
| "step (UtteranceError p i e) s = utterance_onerror p i e s"
| "step (MonitorTick now sp) s = monitor_tick now sp s"
| "step (VisibilityChange h now sp) s = visibilitychange h now sp s"
| "step AdvanceFired s = fire_advance s"

definition run :: "event list \<Rightarrow> player \<Rightarrow> player" where
  "run es s = fold step es s"

section \<open>Predicates and examples used in the proofs\<close>

text \<open>
  The predicates of the proofs about the chunker. \<open>only_sp\<close>: the only whitespace in the
  string is the space. \<open>tidy\<close>: non-empty, with no whitespace at either end (what \<open>trim\<close>
  leaves unchanged). \<open>spaced\<close>: no two spaces in a row.
\<close>

definition only_sp :: "jsstring \<Rightarrow> bool" where
  "only_sp s \<longleftrightarrow> (\<forall>c\<in>set s. is_ws c \<longrightarrow> c = SP)"

definition tidy :: "jsstring \<Rightarrow> bool" where
  "tidy x \<longleftrightarrow> x \<noteq> [] \<and> \<not> is_ws (hd x) \<and> \<not> is_ws (last x)"

fun spaced :: "jsstring \<Rightarrow> bool" where
  "spaced (a # b # cs) \<longleftrightarrow> \<not> (a = SP \<and> b = SP) \<and> spaced (b # cs)"
| "spaced _ \<longleftrightarrow> True"

text \<open>
  The sentences the loop of \<open>_buildSpeechChunks\<close> runs over:
  \<open>normalized.match(...) || [normalized]\<close>.
\<close>

definition matched_sentences :: "jsstring \<Rightarrow> jsstring list" where
  "matched_sentences n = (if sentenceMatches n = [] then [n] else sentenceMatches n)"

text \<open>
  What a chunk has to be, given the set \<open>W\<close> of the words of the sentences: non-empty, and
  within \<open>m\<close> code units unless it is one of those words and free of whitespace.
  \<open>pack_inv\<close> is the invariant of both loops on the pair of \<open>chunks\<close> and the string being
  filled.
\<close>

definition chunk_ok :: "nat \<Rightarrow> jsstring set \<Rightarrow> jsstring \<Rightarrow> bool" where
  "chunk_ok m W c \<longleftrightarrow> c \<noteq> [] \<and> (length c \<le> m \<or> ((\<forall>ch\<in>set c. \<not> is_ws ch) \<and> c \<in> W))"

definition pack_inv :: "nat \<Rightarrow> jsstring set \<Rightarrow> jsstring list \<times> jsstring \<Rightarrow> bool" where
  "pack_inv m W st \<longleftrightarrow>
     (\<forall>c\<in>set (fst st). chunk_ok m W c)
     \<and> (snd st = [] \<or> (chunk_ok m W (snd st) \<and> tidy (snd st)))"

text \<open>
  \<open>punct_spaced\<close>: every terminator is followed by a terminator, by a space or by the end
  of the string. \<open>sentence_spaced\<close> adds that the string does not begin with a terminator;
  it is the condition under which the chunks give the text back.
\<close>

fun punct_spaced :: "jsstring \<Rightarrow> bool" where
  "punct_spaced (a # b # cs) \<longleftrightarrow> (is_term a \<longrightarrow> is_term b \<or> b = SP) \<and> punct_spaced (b # cs)"
| "punct_spaced _ \<longleftrightarrow> True"

definition sentence_spaced :: "jsstring \<Rightarrow> bool" where
  "sentence_spaced n \<longleftrightarrow> (n = [] \<or> \<not> is_term (hd n)) \<and> punct_spaced n"

definition settled_text :: "jsstring \<Rightarrow> bool" where
  "settled_text r \<longleftrightarrow> only_sp r \<and> spaced r \<and> punct_spaced r \<and> (r \<noteq> [] \<longrightarrow> \<not> is_ws (last r))"

text \<open>
  \<open>lead_sp\<close> puts a space in front of every string and concatenates; \<open>join_sp\<close> is its tail.
  \<open>flat\<close> is the list of chunks a loop state stands for: \<open>chunks\<close>, then the string being
  filled unless it is empty.
\<close>

definition lead_sp :: "jsstring list \<Rightarrow> jsstring" where
  "lead_sp xs = concat (map ((#) SP) xs)"

definition flat :: "jsstring list \<times> jsstring \<Rightarrow> jsstring list" where
  "flat st = fst st @ (if snd st = [] then [] else [snd st])"

text \<open>
  The examples: a track with the given page id, an engine that is neither speaking nor
  pending nor paused, and the player as the application sets it up (not Firefox, speech
  synthesis with one voice, audio context and media session present, the three callbacks
  assigned) after \<open>loadQueue\<close>.
\<close>

definition track :: "nat \<Rightarrow> article" where
  "track n = \<lparr>pageid = n, title = js ''Place'', locationContext = None\<rparr>"

definition idle :: synth where
  "idle = \<lparr>speaking = False, pending = False, paused = False\<rparr>"

definition app_player :: "article list \<Rightarrow> player" where
  "app_player q =
     loadQueue q ((new_player False True 1 True True)
       \<lparr>onStateChange := True, onTrackChange := True, onError := True\<rparr>)"

text \<open>The message of the error a content fetch ends in, if it does: a rejection, \<open>null\<close>
  or the empty string.\<close>

fun content_error :: "fetch_result \<Rightarrow> string option" where
  "content_error (FetchRejected m) = Some m"
| "content_error (FetchResolved None) = Some ''No content available''"
| "content_error (FetchResolved (Some t)) = (if t = [] then Some ''No content available'' else None)"

text \<open>A narration of the first track under way: \<open>play()\<close>, the fetch returns \<open>Hi.\<close>, the
  speak delay passes with an idle engine, and the utterance of the only chunk starts.\<close>

definition narration_started :: "event list" where
  "narration_started =
     [Play,
      Fetched 1 (track 0) (FetchResolved (Some (js ''Hi.''))),
      SpeakDelayFired 1 (js ''Place. Hi.'') 1 idle,
      UtteranceStart 1 0 1000]"

section \<open>Properties of the chunks\<close>

lemma is_ws_SP [simp]: "is_ws SP"
  by (simp add: is_ws_def SP_def)

lemma only_sp_collapse_ws: "only_sp (collapse_ws s)"
  by (induction s rule: collapse_ws.induct) (auto simp: only_sp_def)

lemma set_trim_subset: "set (trim s) \<subseteq> set s"
proof
  fix x assume "x \<in> set (trim s)"
  then have "x \<in> set (dropWhile is_ws (rev (dropWhile is_ws s)))" by (simp add: trim_def)
  then have "x \<in> set (rev (dropWhile is_ws s))" by (rule set_dropWhileD)
  then have "x \<in> set (dropWhile is_ws s)" by simp
  then show "x \<in> set s" by (rule set_dropWhileD)
qed

lemma only_sp_trim: "only_sp s \<Longrightarrow> only_sp (trim s)"
  using set_trim_subset by (fastforce simp: only_sp_def)

lemma trim_edges: "trim s = [] \<or> tidy (trim s)"
proof (cases "trim s = []")
  case False
  let ?d = "dropWhile is_ws s"
  let ?r = "dropWhile is_ws (rev ?d)"
  from False have r: "?r \<noteq> []" by (simp add: trim_def)
  then have h: "\<not> is_ws (hd ?r)" by (rule hd_dropWhile)
  have l: "last (trim s) = hd ?r" using r by (simp add: trim_def last_rev)
  from r have d: "?d \<noteq> []" by (cases "?d = []") simp_all
  then have hd: "\<not> is_ws (hd ?d)" by (rule hd_dropWhile)
  obtain ys where ys: "rev ?d = ys @ ?r"
    by (metis takeWhile_dropWhile_id)
  then have "?d = rev ?r @ rev ys" by (metis rev_append rev_rev_ident)
  then have "hd ?d = hd (rev ?r)" using r by (metis hd_append2 rev_is_Nil_conv)
  then have "\<not> is_ws (hd (trim s))" using hd by (simp add: trim_def)
  with False h l show ?thesis by (simp add: tidy_def)
qed simp

lemma trim_tidy: "tidy x \<Longrightarrow> trim x = x"
proof -
  assume t: "tidy x"
  then obtain a xs where x: "x = a # xs" and a: "\<not> is_ws a" by (cases x) (auto simp: tidy_def)
  then have d: "dropWhile is_ws x = x" by simp
  from t have "rev x \<noteq> []" "\<not> is_ws (hd (rev x))" by (auto simp: tidy_def hd_rev)
  then have "dropWhile is_ws (rev x) = rev x" by (cases "rev x") auto
  with d show ?thesis by (simp add: trim_def)
qed

lemma tidy_join: "tidy a \<Longrightarrow> tidy b \<Longrightarrow> tidy (a @ SP # b)"
  by (auto simp: tidy_def)

lemma trim_SP_tidy: "tidy b \<Longrightarrow> trim (SP # b) = b"
proof -
  assume t: "tidy b"
  then have "dropWhile is_ws (SP # b) = b" by (cases b) (auto simp: tidy_def)
  then have "trim (SP # b) = trim b" using t by (simp add: trim_def tidy_def)
  with t show ?thesis by (simp add: trim_tidy)
qed

lemma split_sp_nonempty: "split_sp s \<noteq> []"
  by (induction s) (auto split: list.splits)

lemma split_sp_words: "w \<in> set (split_sp s) \<Longrightarrow> set w \<subseteq> set s \<and> SP \<notin> set w"
proof (induction s arbitrary: w)
  case Nil
  then show ?case by simp
next
  case (Cons c cs)
  show ?case
  proof (cases "c = SP")
    case True
    with Cons show ?thesis by auto
  next
    case False
    obtain v vs where v: "split_sp cs = v # vs" using split_sp_nonempty by (cases "split_sp cs") auto
    with False Cons.prems have "w = c # v \<or> w \<in> set vs" by auto
    then show ?thesis
    proof
      assume "w = c # v"
      moreover have "set v \<subseteq> set cs \<and> SP \<notin> set v" using Cons.IH[of v] v by simp
      ultimately show ?thesis using False by auto
    next
      assume "w \<in> set vs"
      then show ?thesis using Cons.IH[of w] v by auto
    qed
  qed
qed

lemma sentenceMatches_Nil: "dropWhile is_term s = [] \<Longrightarrow> sentenceMatches s = []"
  by (subst sentenceMatches.simps) (simp add: Let_def)

lemma sentenceMatches_Cons:
  "dropWhile is_term s \<noteq> [] \<Longrightarrow>
   sentenceMatches s =
     (takeWhile (\<lambda>c. \<not> is_term c) (dropWhile is_term s)
        @ takeWhile is_term (dropWhile (\<lambda>c. \<not> is_term c) (dropWhile is_term s)))
     # sentenceMatches (dropWhile is_term (dropWhile (\<lambda>c. \<not> is_term c) (dropWhile is_term s)))"
  by (subst sentenceMatches.simps) (simp add: Let_def)

lemma sentenceMatches_subset: "x \<in> set (sentenceMatches s) \<Longrightarrow> set x \<subseteq> set s"
proof (induction s arbitrary: x rule: sentenceMatches.induct)
  case (1 s)
  let ?s1 = "dropWhile is_term s"
  let ?r1 = "dropWhile (\<lambda>c. \<not> is_term c) ?s1"
  let ?r2 = "dropWhile is_term ?r1"
  have ne: "?s1 \<noteq> []"
  proof
    assume "?s1 = []"
    then have "sentenceMatches s = []" by (rule sentenceMatches_Nil)
    with "1.prems" show False by simp
  qed
  from "1.prems" have "x = takeWhile (\<lambda>c. \<not> is_term c) ?s1 @ takeWhile is_term ?r1
      \<or> x \<in> set (sentenceMatches ?r2)"
    unfolding sentenceMatches_Cons[OF ne] by simp
  moreover have s1: "set ?s1 \<subseteq> set s" by (auto dest: set_dropWhileD)
  moreover have r1: "set ?r1 \<subseteq> set ?s1" by (auto dest: set_dropWhileD)
  moreover have r2: "set ?r2 \<subseteq> set ?r1" by (auto dest: set_dropWhileD)
  moreover have "set (takeWhile (\<lambda>c. \<not> is_term c) ?s1) \<subseteq> set ?s1" by (auto dest: set_takeWhileD)
  moreover have "set (takeWhile is_term ?r1) \<subseteq> set ?r1" by (auto dest: set_takeWhileD)
  moreover have "x \<in> set (sentenceMatches ?r2) \<Longrightarrow> set x \<subseteq> set ?r2"
    using "1.IH"[OF refl ne refl refl refl refl] by simp
  ultimately show ?case by (elim disjE) (simp, blast, blast)
qed

lemma word_step_inv:
  assumes "pack_inv m W st" and "\<forall>ch\<in>set w. \<not> is_ws ch" and "w \<in> W"
  shows "pack_inv m W (word_step m w st)"
proof (cases st)
  case (Pair chunks segment)
  show ?thesis
  proof (cases "w = []")
    case True
    with assms(1) Pair show ?thesis by (simp add: word_step_def)
  next
    case False
    with assms(2) have tw: "tidy w" by (simp add: tidy_def)
    have okw: "chunk_ok m W w" using False assms(2,3) by (simp add: chunk_ok_def)
    show ?thesis
    proof (cases "segment = []")
      case True
      have "trim (SP # w) = w" using tw by (rule trim_SP_tidy)
      with True Pair False assms(1) okw tw show ?thesis
        by (auto simp: word_step_def pack_inv_def)
    next
      case seg: False
      with assms(1) Pair have ts: "tidy segment" and oks: "chunk_ok m W segment"
        by (auto simp: pack_inv_def)
      have tj: "tidy (segment @ SP # w)" using ts tw by (rule tidy_join)
      then have "trim (segment @ SP # w) = segment @ SP # w" by (rule trim_tidy)
      with seg Pair False assms(1) okw tw tj oks show ?thesis
        by (auto simp: word_step_def pack_inv_def chunk_ok_def)
    qed
  qed
qed

lemma fold_word_step_inv:
  "pack_inv m W st \<Longrightarrow> \<forall>w\<in>set ws. (\<forall>ch\<in>set w. \<not> is_ws ch) \<and> w \<in> W \<Longrightarrow>
   pack_inv m W (fold (word_step m) ws st)"
  by (induction ws arbitrary: st) (simp_all add: word_step_inv)

lemma words_no_ws:
  assumes "only_sp t" and "w \<in> set (split_sp t)"
  shows "\<forall>ch\<in>set w. \<not> is_ws ch"
  using split_sp_words[OF assms(2)] assms(1) by (auto simp: only_sp_def)

lemma sentence_step_inv:
  assumes "pack_inv m W st" and "only_sp s" and "set (split_sp (trim s)) \<subseteq> W"
  shows "pack_inv m W (sentence_step m s st)"
proof (cases st)
  case (Pair chunks current)
  let ?t = "trim s"
  show ?thesis
  proof (cases "?t = []")
    case True
    with assms(1) Pair show ?thesis by (simp add: sentence_step_def)
  next
    case False
    with trim_edges[of s] have tt: "tidy ?t" by simp
    have ot: "only_sp ?t" using assms(2) by (rule only_sp_trim)
    let ?chunks1 = "if current \<noteq> [] then chunks @ [current] else chunks"
    have c1: "pack_inv m W (?chunks1, [])" using assms(1) Pair by (auto simp: pack_inv_def)
    have fits: "length (trim (current @ SP # ?t)) \<le> m \<Longrightarrow>
        pack_inv m W (chunks, if current \<noteq> [] then current @ SP # ?t else ?t)"
    proof -
      assume le: "length (trim (current @ SP # ?t)) \<le> m"
      show ?thesis
      proof (cases "current = []")
        case True
        with le have "length ?t \<le> m" using trim_SP_tidy[OF tt] by simp
        with True tt False assms(1) Pair show ?thesis by (auto simp: pack_inv_def chunk_ok_def)
      next
        case cur: False
        with assms(1) Pair have "tidy current" by (auto simp: pack_inv_def)
        then have tj: "tidy (current @ SP # ?t)" using tt by (rule tidy_join)
        then have "trim (current @ SP # ?t) = current @ SP # ?t" by (rule trim_tidy)
        with le cur tj assms(1) Pair show ?thesis by (auto simp: pack_inv_def chunk_ok_def)
      qed
    qed
    have short: "length ?t \<le> m \<Longrightarrow> pack_inv m W (?chunks1, ?t)"
    proof -
      assume "length ?t \<le> m"
      then have "chunk_ok m W ?t" using False by (simp add: chunk_ok_def)
      moreover have "\<forall>c\<in>set ?chunks1. chunk_ok m W c" using c1 by (simp add: pack_inv_def)
      ultimately show ?thesis using tt by (simp add: pack_inv_def)
    qed
    have long: "pack_inv m W (fold (word_step m) (split_sp ?t) (?chunks1, []))"
    proof (rule fold_word_step_inv)
      show "pack_inv m W (?chunks1, [])" by (rule c1)
      show "\<forall>w\<in>set (split_sp ?t). (\<forall>ch\<in>set w. \<not> is_ws ch) \<and> w \<in> W"
        using words_no_ws[OF ot] assms(3) by blast
    qed
    obtain chunks2 segment where f: "fold (word_step m) (split_sp ?t) (?chunks1, []) = (chunks2, segment)"
      by (cases "fold (word_step m) (split_sp ?t) (?chunks1, [])")
    let ?current1 = "if current \<noteq> [] then [] else current"
    have c1e: "?current1 = []" by simp
    from long have "pack_inv m W (chunks2, segment)" unfolding f .
    then have words: "pack_inv m W (chunks2, if segment \<noteq> [] then segment else ?current1)"
      unfolding c1e by (cases "segment = []") simp_all
    show ?thesis
    proof (cases "length (trim (current @ SP # ?t)) \<le> m")
      case True
      then have "sentence_step m s st = (chunks, if current \<noteq> [] then current @ SP # ?t else ?t)"
        using Pair False by (simp add: sentence_step_def)
      with fits[OF True] show ?thesis by simp
    next
      case nofit: False
      show ?thesis
      proof (cases "length ?t \<le> m")
        case True
        then have "sentence_step m s st = (?chunks1, ?t)"
          using Pair False nofit by (simp add: sentence_step_def)
        with short[OF True] show ?thesis by simp
      next
        case toolong: False
        have "sentence_step m s st = (chunks2, if segment \<noteq> [] then segment else ?current1)"
          using Pair False nofit toolong f by (simp add: sentence_step_def Let_def)
        with words show ?thesis by simp
      qed
    qed
  qed
qed

lemma fold_sentence_step_inv:
  "pack_inv m W st \<Longrightarrow> \<forall>s\<in>set ss. only_sp s \<and> set (split_sp (trim s)) \<subseteq> W \<Longrightarrow>
   pack_inv m W (fold (sentence_step m) ss st)"
  by (induction ss arbitrary: st) (simp_all add: sentence_step_inv)

lemma join_sp_lead: "join_sp xs = tl (lead_sp xs)"
  by (cases xs) (simp_all add: lead_sp_def)

lemma lead_sp_append: "lead_sp (xs @ ys) = lead_sp xs @ lead_sp ys"
  by (simp add: lead_sp_def)

lemma lead_sp_split: "lead_sp (split_sp t) = SP # t"
proof (induction t)
  case Nil
  show ?case by (simp add: lead_sp_def)
next
  case (Cons c cs)
  show ?case
  proof (cases "c = SP")
    case True
    with Cons show ?thesis by (simp add: lead_sp_def)
  next
    case False
    obtain v vs where v: "split_sp cs = v # vs"
      using split_sp_nonempty by (cases "split_sp cs") auto
    with Cons have "SP # v @ lead_sp vs = SP # cs" by (simp add: lead_sp_def)
    with False v show ?thesis by (simp add: lead_sp_def)
  qed
qed

lemma word_step_lead:
  "w \<noteq> [] \<Longrightarrow> lead_sp (flat (word_step m w st)) = lead_sp (flat st) @ SP # w"
  by (cases st) (simp add: word_step_def flat_def lead_sp_def)

lemma fold_word_step_lead:
  "[] \<notin> set ws \<Longrightarrow> lead_sp (flat (fold (word_step m) ws st)) = lead_sp (flat st) @ lead_sp ws"
proof (induction ws arbitrary: st)
  case Nil
  show ?case by (simp add: lead_sp_def)
next
  case (Cons w ws)
  then have "w \<noteq> []" and "[] \<notin> set ws" by auto
  then show ?case
    using Cons.IH[of "word_step m w st"] word_step_lead[of w m st]
    by (simp add: lead_sp_def)
qed

lemma sentence_step_lead:
  assumes "trim s \<noteq> []" and "[] \<notin> set (split_sp (trim s))"
  shows "lead_sp (flat (sentence_step m s st)) = lead_sp (flat st) @ SP # trim s"
proof (cases st)
  case (Pair chunks current)
  let ?t = "trim s"
  let ?chunks1 = "if current \<noteq> [] then chunks @ [current] else chunks"
  let ?current1 = "if current \<noteq> [] then [] else current"
  obtain chunks2 segment where f: "fold (word_step m) (split_sp ?t) (?chunks1, []) = (chunks2, segment)"
    by (cases "fold (word_step m) (split_sp ?t) (?chunks1, [])")
  have c1: "flat (?chunks1, []) = flat st" using Pair by (simp add: flat_def)
  have "lead_sp (flat (chunks2, segment)) = lead_sp (flat (?chunks1, [])) @ lead_sp (split_sp ?t)"
    using fold_word_step_lead[OF assms(2), of m "(?chunks1, [])"] unfolding f .
  then have words: "lead_sp (flat (chunks2, segment)) = lead_sp (flat st) @ SP # ?t"
    unfolding c1 lead_sp_split .
  show ?thesis
  proof (cases "length (trim (current @ SP # ?t)) \<le> m")
    case True
    then have "sentence_step m s st = (chunks, if current \<noteq> [] then current @ SP # ?t else ?t)"
      using Pair assms(1) by (simp add: sentence_step_def)
    then show ?thesis using Pair assms(1) by (simp add: flat_def lead_sp_def)
  next
    case nofit: False
    show ?thesis
    proof (cases "length ?t \<le> m")
      case True
      then have "sentence_step m s st = (?chunks1, ?t)"
        using Pair assms(1) nofit by (simp add: sentence_step_def)
      then show ?thesis using Pair assms(1) by (simp add: flat_def lead_sp_def)
    next
      case toolong: False
      have "sentence_step m s st = (chunks2, if segment \<noteq> [] then segment else ?current1)"
        using Pair assms(1) nofit toolong f by (simp add: sentence_step_def Let_def)
      moreover have "flat (chunks2, if segment \<noteq> [] then segment else ?current1) = flat (chunks2, segment)"
        by (simp add: flat_def)
      ultimately show ?thesis using words by simp
    qed
  qed
qed

lemma fold_sentence_step_lead:
  "\<forall>s\<in>set ss. trim s \<noteq> [] \<and> [] \<notin> set (split_sp (trim s)) \<Longrightarrow>
   lead_sp (flat (fold (sentence_step m) ss st)) = lead_sp (flat st) @ lead_sp (map trim ss)"
proof (induction ss arbitrary: st)
  case Nil
  show ?case by (simp add: lead_sp_def)
next
  case (Cons s ss)
  then have a: "trim s \<noteq> []" and b: "[] \<notin> set (split_sp (trim s))"
    and c: "\<forall>s\<in>set ss. trim s \<noteq> [] \<and> [] \<notin> set (split_sp (trim s))" by auto
  show ?case
    using Cons.IH[OF c, of "sentence_step m s st"] sentence_step_lead[OF a b, of m st]
    by (simp add: lead_sp_def)
qed

lemma spaced_append_left: "spaced (a @ b) \<Longrightarrow> spaced a"
  by (induction a rule: spaced.induct) auto

lemma spaced_append_right: "spaced (a @ b) \<Longrightarrow> spaced b"
proof (induction a)
  case Nil then show ?case by simp
next
  case (Cons x a)
  then have "spaced (a @ b)" by (cases "a @ b") auto
  with Cons.IH show ?case .
qed

lemma punct_spaced_append_right: "punct_spaced (a @ b) \<Longrightarrow> punct_spaced b"
proof (induction a)
  case Nil then show ?case by simp
next
  case (Cons x a)
  then have "punct_spaced (a @ b)" by (cases "a @ b") auto
  with Cons.IH show ?case .
qed

lemma punct_spaced_junction:
  "punct_spaced (a @ b) \<Longrightarrow> a \<noteq> [] \<Longrightarrow> b \<noteq> [] \<Longrightarrow> is_term (last a) \<Longrightarrow> is_term (hd b) \<or> hd b = SP"
proof (induction a)
  case Nil then show ?case by simp
next
  case (Cons x a)
  show ?case
  proof (cases "a = []")
    case True
    with Cons.prems show ?thesis by (cases b) auto
  next
    case False
    then obtain y ys where "a = y # ys" by (cases a) auto
    with Cons.prems have "punct_spaced (a @ b)" by auto
    with Cons.IH False Cons.prems show ?thesis by simp
  qed
qed

lemma trim_decomp: "\<exists>a b. s = a @ trim s @ b"
proof -
  let ?d = "dropWhile is_ws s"
  have e: "takeWhile is_ws (rev ?d) @ dropWhile is_ws (rev ?d) = rev ?d"
    by (rule takeWhile_dropWhile_id)
  have "?d = rev (rev ?d)" by simp
  also have "\<dots> = rev (takeWhile is_ws (rev ?d) @ dropWhile is_ws (rev ?d))" unfolding e ..
  also have "\<dots> = trim s @ rev (takeWhile is_ws (rev ?d))" by (simp only: rev_append trim_def)
  finally have "?d = trim s @ rev (takeWhile is_ws (rev ?d))" .
  moreover have "s = takeWhile is_ws s @ ?d" by simp
  ultimately show ?thesis by metis
qed

lemma spaced_trim: "spaced s \<Longrightarrow> spaced (trim s)"
proof -
  assume s: "spaced s"
  obtain a b where "s = a @ trim s @ b" using trim_decomp by blast
  with s have "spaced (a @ trim s @ b)" by simp
  then have "spaced (trim s @ b)" by (rule spaced_append_right)
  then show ?thesis by (rule spaced_append_left)
qed

lemma collapse_ws_hd: "s \<noteq> [] \<Longrightarrow> \<not> is_ws (hd s) \<Longrightarrow> collapse_ws s \<noteq> [] \<and> hd (collapse_ws s) = hd s"
  by (cases s) auto

lemma spaced_collapse_ws: "spaced (collapse_ws s)"
proof (induction s rule: collapse_ws.induct)
  case 1
  show ?case by simp
next
  case (2 c cs)
  show ?case
  proof (cases "is_ws c")
    case True
    let ?d = "dropWhile is_ws cs"
    from True 2 have ih: "spaced (collapse_ws ?d)" by simp
    show ?thesis
    proof (cases "?d = []")
      case True
      then have "collapse_ws ?d = []" by (simp only: collapse_ws.simps)
      with \<open>is_ws c\<close> show ?thesis by (simp del: dropWhile_eq_Nil_conv)
    next
      case False
      then have "\<not> is_ws (hd ?d)" by (rule hd_dropWhile)
      with False have "collapse_ws ?d \<noteq> [] \<and> hd (collapse_ws ?d) = hd ?d \<and> hd ?d \<noteq> SP"
        using collapse_ws_hd[of ?d] by auto
      then obtain y ys where "collapse_ws ?d = y # ys" "y \<noteq> SP" by (cases "collapse_ws ?d") auto
      with ih \<open>is_ws c\<close> show ?thesis by simp
    qed
  next
    case False
    with 2 have ih: "spaced (collapse_ws cs)" by simp
    from False have "c \<noteq> SP" by auto
    with ih False show ?thesis by (cases "collapse_ws cs") auto
  qed
qed

lemma split_sp_empty_words:
  "spaced t \<Longrightarrow> t \<noteq> [] \<Longrightarrow> last t \<noteq> SP \<Longrightarrow>
   [] \<notin> set (tl (split_sp t)) \<and> (hd (split_sp t) = [] \<longleftrightarrow> hd t = SP)"
proof (induction t)
  case Nil then show ?case by simp
next
  case (Cons c cs)
  obtain v vs where v: "split_sp cs = v # vs"
    using split_sp_nonempty by (cases "split_sp cs") auto
  show ?case
  proof (cases "cs = []")
    case True
    with Cons.prems show ?thesis by simp
  next
    case False
    then obtain d ds where cs: "cs = d # ds" by (cases cs) auto
    from Cons.prems cs have sp: "spaced cs" and l: "last cs \<noteq> SP" by auto
    from Cons.IH[OF sp False l] v have ih: "[] \<notin> set vs" "v = [] \<longleftrightarrow> hd cs = SP" by auto
    show ?thesis
    proof (cases "c = SP")
      case True
      with Cons.prems cs have "hd cs \<noteq> SP" by auto
      with ih True v show ?thesis by simp
    next
      case False
      with ih v show ?thesis by simp
    qed
  qed
qed

lemma tidy_words:
  assumes "tidy t" and "spaced t"
  shows "[] \<notin> set (split_sp t)"
proof -
  from assms(1) have ne: "t \<noteq> []" and l: "last t \<noteq> SP" and h: "hd t \<noteq> SP"
    by (auto simp: tidy_def)
  from split_sp_empty_words[OF assms(2) ne l] h
  have "[] \<notin> set (tl (split_sp t))" "hd (split_sp t) \<noteq> []" by auto
  then show ?thesis using split_sp_nonempty[of t] by (cases "split_sp t") auto
qed

lemma settled_text_suffix:
  assumes "settled_text (a @ b)"
  shows "settled_text b"
proof -
  from assms have "only_sp b" by (auto simp: settled_text_def only_sp_def)
  moreover from assms have "spaced b" by (auto simp: settled_text_def dest: spaced_append_right)
  moreover from assms have "punct_spaced b" by (auto simp: settled_text_def dest: punct_spaced_append_right)
  moreover from assms have "b \<noteq> [] \<longrightarrow> \<not> is_ws (last b)" by (auto simp: settled_text_def)
  ultimately show ?thesis by (simp add: settled_text_def)
qed

lemma is_term_not_ws: "is_term c \<Longrightarrow> \<not> is_ws c"
  by (auto simp: is_term_def is_ws_def)

lemma first_sentence:
  assumes pre: "settled_text r" and ne: "r \<noteq> []" and nt: "\<not> is_term (hd r)"
  defines "body \<equiv> takeWhile (\<lambda>c. \<not> is_term c) r"
  defines "r1 \<equiv> dropWhile (\<lambda>c. \<not> is_term c) r"
  defines "s \<equiv> body @ takeWhile is_term r1"
  defines "r2 \<equiv> dropWhile is_term r1"
  shows "r = s @ r2" and "r2 = [] \<or> hd r2 = SP" and "settled_text r2"
    and "trim s \<noteq> []" and "[] \<notin> set (split_sp (trim s))"
    and "SP # trim s = (if hd r = SP then s else SP # s)"
proof -
  show dec: "r = s @ r2" by (simp add: s_def r2_def body_def r1_def)
  from ne nt have bne: "body \<noteq> []" by (cases r) (auto simp: body_def)
  then have sne: "s \<noteq> []" by (simp add: s_def)
  have hs: "hd s = hd r" using bne ne nt by (cases r) (auto simp: s_def body_def)
  show r2hd: "r2 = [] \<or> hd r2 = SP"
  proof (cases "r2 = []")
    case False
    then have r1ne: "r1 \<noteq> []" by (auto simp: r2_def)
    then have "is_term (hd r1)" unfolding r1_def using hd_dropWhile[of "\<lambda>c. \<not> is_term c" r] by simp
    then have stne: "takeWhile is_term r1 \<noteq> []" using r1ne by (cases r1) auto
    then have "last s = last (takeWhile is_term r1)" by (simp add: s_def)
    moreover have "last (takeWhile is_term r1) \<in> set (takeWhile is_term r1)" using stne by simp
    ultimately have lt: "is_term (last s)" by (auto dest: set_takeWhileD)
    from False have "\<not> is_term (hd r2)" unfolding r2_def by (rule hd_dropWhile)
    moreover have "punct_spaced (s @ r2)" using pre dec by (simp add: settled_text_def)
    ultimately show ?thesis using punct_spaced_junction[of s r2] sne False lt by blast
  qed simp
  show "settled_text r2" using pre dec settled_text_suffix[of s r2] by simp
  have ls: "\<not> is_ws (last s)"
  proof (cases "r1 = []")
    case True
    then have "s = r" using dec by (simp add: r2_def)
    with pre ne show ?thesis by (simp add: settled_text_def)
  next
    case False
    then have "is_term (hd r1)" unfolding r1_def using hd_dropWhile[of "\<lambda>c. \<not> is_term c" r] by simp
    then have stne: "takeWhile is_term r1 \<noteq> []" using False by (cases r1) auto
    then have "last s = last (takeWhile is_term r1)" by (simp add: s_def)
    moreover have "last (takeWhile is_term r1) \<in> set (takeWhile is_term r1)" using stne by simp
    ultimately have "is_term (last s)" by (auto dest: set_takeWhileD)
    then show ?thesis by (rule is_term_not_ws)
  qed
  have sps: "spaced s" using pre dec spaced_append_left[of s r2] by (simp add: settled_text_def)
  have ons: "only_sp s" using pre dec by (auto simp: settled_text_def only_sp_def)
  have key: "tidy (trim s) \<and> spaced (trim s) \<and> SP # trim s = (if hd r = SP then s else SP # s)"
  proof (cases "hd r = SP")
    case True
    then obtain t where st: "s = SP # t" using hs sne by (cases s) auto
    with ls have tne: "t \<noteq> []" by auto
    then have lt: "\<not> is_ws (last t)" using ls st by simp
    from sps st tne have "hd t \<noteq> SP" by (cases t) auto
    moreover have "hd t \<in> set s" using st tne by simp
    ultimately have "\<not> is_ws (hd t)" using ons by (auto simp: only_sp_def)
    with tne lt have tt: "tidy t" by (simp add: tidy_def)
    then have "trim s = t" unfolding st by (rule trim_SP_tidy)
    moreover have "spaced t" using sps st spaced_append_right[of "[SP]" t] by simp
    ultimately show ?thesis using tt True st by simp
  next
    case False
    moreover have "hd s \<in> set s" using sne by simp
    ultimately have "\<not> is_ws (hd s)" using ons hs by (auto simp: only_sp_def)
    with sne ls have "tidy s" by (simp add: tidy_def)
    then show ?thesis using sps False by (simp add: trim_tidy)
  qed
  then show "trim s \<noteq> []" by (auto simp: tidy_def)
  from key show "[] \<notin> set (split_sp (trim s))" by (simp add: tidy_words)
  from key show "SP # trim s = (if hd r = SP then s else SP # s)" by simp
qed

lemma sentences_rejoin:
  "settled_text r \<Longrightarrow> (r \<noteq> [] \<longrightarrow> \<not> is_term (hd r)) \<Longrightarrow>
   lead_sp (map trim (sentenceMatches r)) = (if r = [] then [] else if hd r = SP then r else SP # r)
   \<and> (\<forall>s\<in>set (sentenceMatches r). trim s \<noteq> [] \<and> [] \<notin> set (split_sp (trim s)))"
proof (induction r rule: sentenceMatches.induct)
  case (1 r)
  show ?case
  proof (cases "r = []")
    case True
    then show ?thesis by (simp add: sentenceMatches_Nil lead_sp_def)
  next
    case False
    with "1.prems" have nt: "\<not> is_term (hd r)" by simp
    with False have d: "dropWhile is_term r = r" by (cases r) auto
    let ?r1 = "dropWhile (\<lambda>c. \<not> is_term c) r"
    let ?s = "takeWhile (\<lambda>c. \<not> is_term c) r @ takeWhile is_term ?r1"
    let ?r2 = "dropWhile is_term ?r1"
    note fs = first_sentence[OF "1.prems"(1) False nt]
    have ne': "dropWhile is_term r \<noteq> []" unfolding d by (rule False)
    have sm: "sentenceMatches r = ?s # sentenceMatches ?r2"
      using sentenceMatches_Cons[OF ne'] unfolding d .
    have r2nt: "?r2 \<noteq> [] \<longrightarrow> \<not> is_term (hd ?r2)"
    proof
      assume "?r2 \<noteq> []"
      with fs(2) have "hd ?r2 = SP" by blast
      then show "\<not> is_term (hd ?r2)" by (simp add: is_term_def SP_def)
    qed
    note ih0 = "1.IH"[OF refl ne' refl refl refl refl, unfolded d]
    have ih: "lead_sp (map trim (sentenceMatches ?r2)) = (if ?r2 = [] then [] else if hd ?r2 = SP then ?r2 else SP # ?r2)
      \<and> (\<forall>s\<in>set (sentenceMatches ?r2). trim s \<noteq> [] \<and> [] \<notin> set (split_sp (trim s)))"
      by (rule ih0[OF fs(3) r2nt])
    have rest: "lead_sp (map trim (sentenceMatches ?r2)) = ?r2"
    proof -
      define q where "q = ?r2"
      from ih have "lead_sp (map trim (sentenceMatches q)) = (if q = [] then [] else if hd q = SP then q else SP # q)"
        unfolding q_def by (rule conjunct1)
      moreover from fs(2) have "q = [] \<or> hd q = SP" unfolding q_def .
      ultimately have "lead_sp (map trim (sentenceMatches q)) = q" by auto
      then show ?thesis unfolding q_def .
    qed
    have "lead_sp (map trim (sentenceMatches r)) = (SP # trim ?s) @ ?r2"
      unfolding sm using rest by (simp add: lead_sp_def)
    also have "\<dots> = (if hd r = SP then ?s else SP # ?s) @ ?r2" using fs(6) by simp
    also have "\<dots> = (if hd r = SP then r else SP # r)" using fs(1) by simp
    finally have "lead_sp (map trim (sentenceMatches r)) = (if hd r = SP then r else SP # r)" .
    moreover have "\<forall>s\<in>set (sentenceMatches r). trim s \<noteq> [] \<and> [] \<notin> set (split_sp (trim s))"
      unfolding sm using ih fs(4,5) by simp
    ultimately show ?thesis using False by simp
  qed
qed

lemma flat_result:
  "(case st of (chunks, current) \<Rightarrow> if current \<noteq> [] then chunks @ [current] else chunks) = flat st"
  by (cases st) (simp add: flat_def)

lemma normalized_settled:
  assumes "punct_spaced (trim (collapse_ws t))"
  shows "settled_text (trim (collapse_ws t))"
proof -
  let ?n = "trim (collapse_ws t)"
  have "only_sp ?n" using only_sp_collapse_ws by (rule only_sp_trim)
  moreover have "spaced ?n" using spaced_collapse_ws by (rule spaced_trim)
  moreover have "?n \<noteq> [] \<longrightarrow> \<not> is_ws (last ?n)" using trim_edges[of "collapse_ws t"] by (auto simp: tidy_def)
  ultimately show ?thesis using assms by (simp add: settled_text_def)
qed

text \<open>
  Claim C3, amended. The chunker puts a space between any two sentences it has matched and
  cannot match the terminators in front of the first sentence. So, for every text and every
  \<open>maxChars > 0\<close>, joining the chunks with single spaces gives back the normalised text,
  with nothing lost, duplicated or reordered, when that text fits in \<open>maxChars\<close>, or when it
  does not begin with a terminator (\<open>.\<close>, \<open>!\<close> or \<open>?\<close>) and every run of terminators in it
  is followed by a space or by the end of the text.
\<close>

theorem buildSpeechChunks_roundtrip:
  assumes "0 < maxChars"
    and "length (trim (collapse_ws text)) \<le> maxChars \<or> sentence_spaced (trim (collapse_ws text))"
  shows "join_sp (buildSpeechChunks text maxChars) = trim (collapse_ws text)"
proof -
  define n where "n = trim (collapse_ws text)"
  show ?thesis
  proof (cases "n = [] \<or> length n \<le> maxChars")
    case True
    then show ?thesis by (auto simp: buildSpeechChunks_def n_def[symmetric] Let_def)
  next
    case False
    then have ne: "n \<noteq> []" and long: "\<not> length n \<le> maxChars" by auto
    from assms(2) long have "sentence_spaced n" by (simp add: n_def)
    then have ps: "punct_spaced n" and nt: "n \<noteq> [] \<longrightarrow> \<not> is_term (hd n)"
      by (auto simp: sentence_spaced_def)
    have st: "settled_text n" unfolding n_def using ps[unfolded n_def] by (rule normalized_settled)
    have "n = [] \<or> tidy n" unfolding n_def by (rule trim_edges)
    with ne have "hd n \<noteq> SP" by (auto simp: tidy_def)
    with sentences_rejoin[OF st nt] ne
    have rj: "lead_sp (map trim (sentenceMatches n)) = SP # n"
      and ok: "\<forall>s\<in>set (sentenceMatches n). trim s \<noteq> [] \<and> [] \<notin> set (split_sp (trim s))"
      by auto
    from rj have ms: "sentenceMatches n \<noteq> []" by (auto simp: lead_sp_def)
    have "buildSpeechChunks text maxChars = flat (fold (sentence_step maxChars) (sentenceMatches n) ([], []))"
      using ne long ms by (simp add: buildSpeechChunks_def n_def[symmetric] Let_def flat_result)
    moreover have "lead_sp (flat (fold (sentence_step maxChars) (sentenceMatches n) ([], []))) = SP # n"
      using fold_sentence_step_lead[OF ok, of maxChars "([], [])"] rj by (simp add: flat_def lead_sp_def)
    ultimately have "join_sp (buildSpeechChunks text maxChars) = n" by (simp add: join_sp_lead)
    then show ?thesis by (simp add: n_def)
  qed
qed

text \<open>
  Claim C3 as stated fails: \<open>a.b\<close> with \<open>maxChars = 2\<close> is split after the full stop, and
  the chunks joined with a space read \<open>a. b\<close>.
\<close>

theorem buildSpeechChunks_roundtrip_counterexample:
  "(0::nat) < 2
   \<and> buildSpeechChunks (js ''a.b'') 2 = [js ''a.'', js ''b'']
   \<and> join_sp (buildSpeechChunks (js ''a.b'') 2) = js ''a. b''
   \<and> trim (collapse_ws (js ''a.b'')) = js ''a.b''
   \<and> join_sp (buildSpeechChunks (js ''a.b'') 2) \<noteq> trim (collapse_ws (js ''a.b''))"
  by code_simp

theorem buildSpeechChunks_roundtrip_witness:
  "(0::nat) < 12
   \<and> sentence_spaced (trim (collapse_ws (js ''A  test! verylongwordhere ok? yes '')))
   \<and> buildSpeechChunks (js ''A  test! verylongwordhere ok? yes '') 12
       = [js ''A test!'', js ''verylongwordhere'', js ''ok? yes'']
   \<and> join_sp (buildSpeechChunks (js ''A  test! verylongwordhere ok? yes '') 12)
       = js ''A test! verylongwordhere ok? yes''
   \<and> length (trim (collapse_ws (js '' a.b ''))) \<le> 12
   \<and> join_sp (buildSpeechChunks (js '' a.b '') 12) = js ''a.b''"
proof -
  have a: "(0::nat) < 12" by simp
  have b: "sentence_spaced (trim (collapse_ws (js ''A  test! verylongwordhere ok? yes '')))"
    by code_simp
  have c: "trim (collapse_ws (js ''A  test! verylongwordhere ok? yes ''))
     = js ''A test! verylongwordhere ok? yes''" by code_simp
  have d: "buildSpeechChunks (js ''A  test! verylongwordhere ok? yes '') 12
       = [js ''A test!'', js ''verylongwordhere'', js ''ok? yes'']" by code_simp
  have e: "length (trim (collapse_ws (js '' a.b ''))) \<le> 12" by code_simp
  have f: "trim (collapse_ws (js '' a.b '')) = js ''a.b''" by code_simp
  from buildSpeechChunks_roundtrip[OF a disjI2[OF b]] have g:
    "join_sp (buildSpeechChunks (js ''A  test! verylongwordhere ok? yes '') 12)
       = js ''A test! verylongwordhere ok? yes''" unfolding c .
  from buildSpeechChunks_roundtrip[OF a disjI1[OF e]] have h:
    "join_sp (buildSpeechChunks (js '' a.b '') 12) = js ''a.b''" unfolding f .
  from a b d g e h show ?thesis by (simp only: simp_thms)
qed

lemma split_sp_append_space: "split_sp (a @ SP # b) = split_sp a @ split_sp b"
proof (induction a)
  case Nil
  show ?case by simp
next
  case (Cons c a)
  obtain v vs where v: "split_sp a = v # vs"
    using split_sp_nonempty by (cases "split_sp a") auto
  with Cons show ?case by simp
qed

lemma split_sp_join: "xs \<noteq> [] \<Longrightarrow> split_sp (join_sp xs) = concat (map split_sp xs)"
proof (induction xs)
  case Nil
  then show ?case by simp
next
  case (Cons x xs)
  show ?case
  proof (cases xs)
    case Nil
    then show ?thesis by simp
  next
    case (Cons y ys)
    have "join_sp (x # xs) = x @ SP # join_sp xs" unfolding Cons by simp
    then have "split_sp (join_sp (x # xs)) = split_sp x @ split_sp (join_sp xs)"
      by (simp only: split_sp_append_space)
    also have "split_sp (join_sp xs) = concat (map split_sp xs)"
      using Cons.IH Cons by simp
    finally show ?thesis by simp
  qed
qed

lemma spaced_sentences_words:
  assumes "sentence_spaced (trim (collapse_ws text))" and "trim (collapse_ws text) \<noteq> []"
    and "s \<in> set (sentenceMatches (trim (collapse_ws text)))"
  shows "set (split_sp (trim s)) \<subseteq> set (split_sp (trim (collapse_ws text)))"
proof -
  define n where "n = trim (collapse_ws text)"
  from assms(1) have ps: "punct_spaced n" and nt: "n \<noteq> [] \<longrightarrow> \<not> is_term (hd n)"
    by (auto simp: sentence_spaced_def n_def)
  have ne: "n \<noteq> []" using assms(2) by (simp add: n_def)
  have st: "settled_text n" unfolding n_def using ps[unfolded n_def] by (rule normalized_settled)
  have "n = [] \<or> tidy n" unfolding n_def by (rule trim_edges)
  with ne have "hd n \<noteq> SP" by (auto simp: tidy_def)
  with sentences_rejoin[OF st nt] ne
  have rj: "lead_sp (map trim (sentenceMatches n)) = SP # n" by auto
  then have ms: "map trim (sentenceMatches n) \<noteq> []" by (auto simp: lead_sp_def)
  from rj have "join_sp (map trim (sentenceMatches n)) = n" by (simp add: join_sp_lead)
  then have "split_sp n = concat (map split_sp (map trim (sentenceMatches n)))"
    using split_sp_join[OF ms] by simp
  moreover have "s \<in> set (sentenceMatches n)" using assms(3) by (simp add: n_def)
  ultimately have "set (split_sp (trim s)) \<subseteq> set (split_sp n)" by auto
  then show ?thesis by (simp add: n_def)
qed

text \<open>
  Claim C2, amended. The chunker cuts the text into sentences first, after every run of
  terminators (\<open>.\<close>, \<open>!\<close> or \<open>?\<close>), also inside a word. So, for every text and every
  \<open>maxChars > 0\<close>, every chunk that \<open>_buildSpeechChunks\<close> returns is a non-empty string of
  at most \<open>maxChars\<close> code units, except that a single word of a matched sentence whose own
  length exceeds \<open>maxChars\<close> is passed through as one unsplit chunk: such a chunk has no
  whitespace and is one of the space-separated words of a sentence. It is a whole word of
  the normalised text when that text does not begin with a terminator and every run of
  terminators in it is followed by a space or by the end of the text.
\<close>

theorem buildSpeechChunks_chunk_bound:
  assumes "0 < maxChars" and "c \<in> set (buildSpeechChunks text maxChars)"
  shows "c \<noteq> []
       \<and> (length c \<le> maxChars
          \<or> ((\<forall>ch\<in>set c. \<not> is_ws ch)
             \<and> (\<exists>s\<in>set (matched_sentences (trim (collapse_ws text))). c \<in> set (split_sp (trim s)))
             \<and> (sentence_spaced (trim (collapse_ws text))
                  \<longrightarrow> c \<in> set (split_sp (trim (collapse_ws text))))))"
proof -
  define n where "n = trim (collapse_ws text)"
  define W where "W = (\<Union>s\<in>set (matched_sentences n). set (split_sp (trim s)))"
  have on: "only_sp n" unfolding n_def using only_sp_collapse_ws by (rule only_sp_trim)
  have "\<forall>s\<in>set (matched_sentences n). only_sp s"
    using on sentenceMatches_subset[of _ n] by (auto simp: only_sp_def matched_sentences_def)
  moreover have "\<forall>s\<in>set (matched_sentences n). set (split_sp (trim s)) \<subseteq> W"
    by (auto simp: W_def)
  ultimately have "\<forall>s\<in>set (matched_sentences n). only_sp s \<and> set (split_sp (trim s)) \<subseteq> W"
    by blast
  then have inv: "pack_inv maxChars W (fold (sentence_step maxChars) (matched_sentences n) ([], []))"
    by (intro fold_sentence_step_inv) (simp_all add: pack_inv_def)
  obtain chunks current
    where f: "fold (sentence_step maxChars) (matched_sentences n) ([], []) = (chunks, current)"
    by (cases "fold (sentence_step maxChars) (matched_sentences n) ([], [])")
  from assms(2) have "c = n \<and> n \<noteq> [] \<and> length n \<le> maxChars
      \<or> n \<noteq> [] \<and> c \<in> set (if current \<noteq> [] then chunks @ [current] else chunks)"
    using f by (auto simp: buildSpeechChunks_def n_def[symmetric] matched_sentences_def Let_def
        split: if_splits)
  then show ?thesis
  proof
    assume "c = n \<and> n \<noteq> [] \<and> length n \<le> maxChars"
    then show ?thesis by (simp add: n_def)
  next
    assume a: "n \<noteq> [] \<and> c \<in> set (if current \<noteq> [] then chunks @ [current] else chunks)"
    with inv f have ok: "chunk_ok maxChars W c" by (auto simp: pack_inv_def split: if_splits)
    show ?thesis
    proof (cases "length c \<le> maxChars")
      case True
      with ok show ?thesis by (simp add: chunk_ok_def)
    next
      case False
      with ok have ne: "c \<noteq> []" and nows: "\<forall>ch\<in>set c. \<not> is_ws ch" and cw: "c \<in> W"
        by (auto simp: chunk_ok_def)
      from cw obtain s where s: "s \<in> set (matched_sentences n)" and cs: "c \<in> set (split_sp (trim s))"
        by (auto simp: W_def)
      have whole: "c \<in> set (split_sp n)" if sp: "sentence_spaced n"
      proof -
        have nt: "\<not> is_term (hd n)" using sp a by (auto simp: sentence_spaced_def)
        then have "dropWhile is_term n \<noteq> []" using a by (cases n) auto
        then have "sentenceMatches n \<noteq> []" by (simp add: sentenceMatches_Cons)
        with s have "s \<in> set (sentenceMatches n)" by (simp add: matched_sentences_def)
        with spaced_sentences_words[of "text" s] sp a cs show ?thesis by (auto simp: n_def)
      qed
      from ne nows s cs whole show ?thesis unfolding n_def by blast
    qed
  qed
qed

text \<open>
  Claim C2 as stated fails: in \<open>aaaa.bbbb\<close> with \<open>maxChars = 3\<close> the one word of the text is
  cut after the full stop, and both chunks are longer than \<open>maxChars\<close>.
\<close>

theorem buildSpeechChunks_chunk_bound_counterexample:
  "(0::nat) < 3
   \<and> buildSpeechChunks (js ''aaaa.bbbb'') 3 = [js ''aaaa.'', js ''bbbb'']
   \<and> 3 < length (js ''aaaa.'')
   \<and> 3 < length (js ''bbbb'')
   \<and> split_sp (trim (collapse_ws (js ''aaaa.bbbb''))) = [js ''aaaa.bbbb'']
   \<and> js ''aaaa.'' \<notin> set (split_sp (trim (collapse_ws (js ''aaaa.bbbb''))))
   \<and> js ''bbbb'' \<notin> set (split_sp (trim (collapse_ws (js ''aaaa.bbbb''))))"
  by code_simp

theorem buildSpeechChunks_chunk_bound_witness:
  "(0::nat) < 12
   \<and> js ''verylongwordhere'' \<in> set (buildSpeechChunks (js ''A  test! verylongwordhere ok? yes '') 12)
   \<and> sentence_spaced (trim (collapse_ws (js ''A  test! verylongwordhere ok? yes '')))
   \<and> js ''verylongwordhere'' \<noteq> []
   \<and> 12 < length (js ''verylongwordhere'')
   \<and> list_all (\<lambda>ch. \<not> is_ws ch) (js ''verylongwordhere'')
   \<and> js ''verylongwordhere'' \<in> set (split_sp (trim (collapse_ws (js ''A  test! verylongwordhere ok? yes ''))))"
proof -
  have a: "(0::nat) < 12" by simp
  have b: "js ''verylongwordhere'' \<in> set (buildSpeechChunks (js ''A  test! verylongwordhere ok? yes '') 12)"
    by code_simp
  have c: "12 < length (js ''verylongwordhere'')" by (simp add: js_def)
  have sp: "sentence_spaced (trim (collapse_ws (js ''A  test! verylongwordhere ok? yes '')))"
    by code_simp
  from c have nle: "\<not> length (js ''verylongwordhere'') \<le> 12" by (simp only: not_le)
  from buildSpeechChunks_chunk_bound[OF a b] nle sp
  have d: "js ''verylongwordhere'' \<noteq> []" and e: "\<forall>ch\<in>set (js ''verylongwordhere''). \<not> is_ws ch"
    and g: "js ''verylongwordhere'' \<in> set (split_sp (trim (collapse_ws (js ''A  test! verylongwordhere ok? yes ''))))"
    by blast+
  from e have f: "list_all (\<lambda>ch. \<not> is_ws ch) (js ''verylongwordhere'')"
    by (simp only: list_all_iff)
  from a b sp d c f g show ?thesis by blast
qed

section \<open>Properties of the player\<close>

lemmas handler_defs =
  emit_def warn_def loadVoices_def stopSilentAudio_def startSilentAudio_def loadQueue_def
  cancelSpeech_def clearMonitoring_def startMonitoring_def updateState_def
  updateMediaMetadata_def scheduleNext_def playArticle_def play_def playTrack_def stop_def
  next_def previous_def playArticle_catch_def resolve_def reject_def handleSpeechEnd_def
  scheduleNext_timer_def fire_advance_def startSpeaking_def speakChunk_def speak_timer_def
  speak_def playArticle_fetched_def resume_check_def utterance_onstart_def
  utterance_onend_def utterance_onerror_def checkSpeechStatus_def monitor_tick_def
  visibilitychange_def updateQueue_def

lemmas example_defs = app_player_def new_player_def track_def idle_def

lemma playbackId_emit [simp]: "playbackId (emit e s) = playbackId s"
  by (simp add: emit_def)

lemma playbackId_warn [simp]: "playbackId (warn m s) = playbackId s"
  by (simp add: warn_def)

lemma playbackId_stopSilentAudio [simp]: "playbackId (stopSilentAudio s) = playbackId s"
  by (simp add: stopSilentAudio_def)

lemma playbackId_startSilentAudio [simp]: "playbackId (startSilentAudio s) = playbackId s"
  by (simp add: startSilentAudio_def)

lemma playbackId_cancelSpeech [simp]: "playbackId (cancelSpeech s) = playbackId s"
  by (simp add: cancelSpeech_def)

lemma playbackId_clearMonitoring [simp]: "playbackId (clearMonitoring s) = playbackId s"
  by (simp add: clearMonitoring_def)

lemma playbackId_updateState [simp]: "playbackId (updateState b s) = playbackId s"
  by (simp add: updateState_def)

lemma playbackId_updateMediaMetadata [simp]: "playbackId (updateMediaMetadata t s) = playbackId s"
  by (simp add: updateMediaMetadata_def)

lemma playbackId_resolve [simp]: "playbackId (resolve p s) = playbackId s"
  by (simp add: resolve_def)

lemma playbackId_playArticle_catch [simp]: "playbackId (playArticle_catch m s) = playbackId s"
  by (simp add: playArticle_catch_def scheduleNext_def Let_def)

lemma playbackId_reject [simp]: "playbackId (reject p m s) = playbackId s"
  by (simp add: reject_def)

lemma playbackId_handleSpeechEnd [simp]: "playbackId (handleSpeechEnd p s) = playbackId s"
  by (simp add: handleSpeechEnd_def scheduleNext_def Let_def)

lemma playbackId_playArticle [simp]: "playbackId (playArticle a s) = playbackId s + 1"
  by (simp add: playArticle_def Let_def)

lemma playbackId_play: "playbackId s \<le> playbackId (play s)"
  by (simp add: play_def Let_def)

lemma playbackId_startSpeaking [simp]: "playbackId (startSpeaking p i s) = playbackId s"
  by (simp add: startSpeaking_def split: option.splits)

lemma playbackId_speakChunk [simp]: "playbackId (speakChunk p i syn s) = playbackId s"
  by (simp add: speakChunk_def Let_def)

lemma playbackId_checkSpeechStatus [simp]: "playbackId (checkSpeechStatus now sp s) = playbackId s"
  by (simp add: checkSpeechStatus_def Let_def split: option.splits)

lemma playbackId_step: "playbackId s \<le> playbackId (step e s)"
proof (cases e)
  case (PlayTrack i)
  then show ?thesis using playbackId_play[of "s\<lparr>currentIndex := nat i\<rparr>"] by (simp add: playTrack_def)
next
  case Next
  then show ?thesis using playbackId_play[of "s\<lparr>currentIndex := currentIndex s + 1\<rparr>"] by (simp add: next_def)
next
  case Previous
  then show ?thesis using playbackId_play[of "s\<lparr>currentIndex := currentIndex s - 1\<rparr>"] by (simp add: previous_def)
next
  case AdvanceFired
  then show ?thesis
    using playbackId_play[of "s\<lparr>advanceTimers := advanceTimers s - 1, currentIndex := currentIndex s + 1\<rparr>"]
    by (simp add: fire_advance_def scheduleNext_timer_def Let_def)
next
  case (Fetched p a r)
  then show ?thesis
    by (simp add: playArticle_fetched_def speak_def Let_def split: fetch_result.splits option.splits)
next
  case (SpeakDelayFired p t v syn)
  then show ?thesis by (simp add: speak_timer_def Let_def)
qed (simp_all add: playbackId_play loadVoices_def loadQueue_def updateQueue_def Let_def stop_def
       resume_check_def utterance_onstart_def startMonitoring_def utterance_onend_def
       utterance_onerror_def monitor_tick_def visibilitychange_def)

lemma playbackId_run: "playbackId s \<le> playbackId (run es s)"
proof (induction es arbitrary: s)
  case Nil
  show ?case by (simp add: run_def)
next
  case (Cons e es)
  have "playbackId s \<le> playbackId (step e s)" by (rule playbackId_step)
  also have "\<dots> \<le> playbackId (run es (step e s))" by (rule Cons.IH)
  finally show ?case by (simp add: run_def)
qed

text \<open>
  Claim C1. Once the attempt id of the player has advanced past \<open>A\<close>, then after every
  further sequence of method calls and callbacks the utterance callbacks \<open>onstart\<close>,
  \<open>onend\<close> and \<open>onerror\<close> of attempt \<open>A\<close> leave every field of the player as it is (playing
  flag, index, monitoring interval, pending advance timers, notifications): \<open>onstart\<close> does
  nothing at all, \<open>onend\<close> and \<open>onerror\<close> only resolve the promise of the stale attempt.
  \<open>_handleSpeechEnd\<close> called with the stale id (attempt ids start at 1) returns at once.
\<close>

theorem stale_callback_is_noop:
  assumes "A < playbackId s"
  shows "utterance_onstart A i now (run es s) = run es s
       \<and> utterance_onend A i now (run es s) = (run es s)\<lparr>settled := insert A (settled (run es s))\<rparr>
       \<and> utterance_onerror A i err (run es s) = (run es s)\<lparr>settled := insert A (settled (run es s))\<rparr>
       \<and> (0 < A \<longrightarrow> handleSpeechEnd (Some A) (run es s) = run es s)"
proof -
  have "A < playbackId (run es s)" using assms playbackId_run[of s es] by simp
  then show ?thesis
    by (simp add: utterance_onstart_def utterance_onend_def utterance_onerror_def resolve_def
        handleSpeechEnd_def)
qed

theorem stale_callback_is_noop_witness:
  "(1::nat) < playbackId (run [Play, Play] (app_player [track 0, track 1]))
   \<and> utterance_onend 1 0 5000 (run [Next] (run [Play, Play] (app_player [track 0, track 1])))
       = (run [Next] (run [Play, Play] (app_player [track 0, track 1])))
           \<lparr>settled := insert 1 (settled (run [Next] (run [Play, Play] (app_player [track 0, track 1]))))\<rparr>"
proof -
  have h: "(1::nat) < playbackId (run [Play, Play] (app_player [track 0, track 1]))"
    by (simp add: run_def handler_defs example_defs Let_def)
  from stale_callback_is_noop[OF h, of 0 5000 "[Next]"] h show ?thesis by simp
qed

text \<open>
  Claim C4, amended. After \<open>updateQueue\<close> the queue is the replacement. When the replacement
  is not empty, \<open>currentIndex\<close> lies in \<open>[0, length)\<close>: it is clamped to \<open>length - 1\<close> if
  the old index was past the end and unchanged otherwise. When the replacement is empty,
  \<open>currentIndex\<close> is left as it was (the clamp is guarded by \<open>articles.length > 0\<close>), so it
  is 0 only if it was 0 before.
\<close>

theorem updateQueue_index:
  "queue (updateQueue articles s) = articles
   \<and> (articles \<noteq> [] \<longrightarrow>
        currentIndex (updateQueue articles s) < length articles
        \<and> currentIndex (updateQueue articles s) = min (currentIndex s) (length articles - 1))
   \<and> (articles = [] \<longrightarrow> currentIndex (updateQueue articles s) = currentIndex s)"
  by (auto simp: updateQueue_def Let_def)

text \<open>Claim C4 as stated fails: after \<open>playTrack(2)\<close> on three tracks, \<open>updateQueue([])\<close>
  leaves \<open>currentIndex\<close> at 2.\<close>

theorem updateQueue_index_counterexample:
  "queue (run [PlayTrack 2, UpdateQueue []] (app_player [track 0, track 1, track 2])) = []
   \<and> currentIndex (run [PlayTrack 2, UpdateQueue []] (app_player [track 0, track 1, track 2])) = 2
   \<and> currentIndex (run [PlayTrack 2, UpdateQueue []] (app_player [track 0, track 1, track 2])) \<noteq> 0"
  by (simp add: run_def handler_defs example_defs Let_def)

theorem updateQueue_index_witness:
  "[track 0, track 1] \<noteq> []
   \<and> currentIndex (run [PlayTrack 2] (app_player [track 0, track 1, track 2])) = 2
   \<and> currentIndex (updateQueue [track 0, track 1] (run [PlayTrack 2] (app_player [track 0, track 1, track 2]))) = 1
   \<and> currentIndex (updateQueue [] (run [PlayTrack 2] (app_player [track 0, track 1, track 2]))) = 2"
proof -
  let ?s = "run [PlayTrack 2] (app_player [track 0, track 1, track 2])"
  have a: "[track 0, track 1] \<noteq> []" by simp
  have b: "currentIndex ?s = 2" by (simp add: run_def handler_defs example_defs Let_def)
  from updateQueue_index[of "[track 0, track 1]" ?s] a b
  have c: "currentIndex (updateQueue [track 0, track 1] ?s) = 1" by simp
  from updateQueue_index[of "[]" ?s] b
  have d: "currentIndex (updateQueue [] ?s) = 2" by simp
  from a b c d show ?thesis by blast
qed

text \<open>
  Claim C9. \<open>playTrack\<close> with an index outside \<open>[0, queue.length)\<close> does nothing but
  \<open>console.warn\<close>: the queue, \<open>currentIndex\<close> and every other field stay as they are, no
  attempt starts and nothing is added to the trace, so no \<open>onStateChange\<close>,
  \<open>onTrackChange\<close> or \<open>onError\<close> is delivered; the call returns normally.
\<close>

theorem playTrack_out_of_range:
  assumes "index < 0 \<or> int (length (queue s)) \<le> index"
  shows "playTrack index s = s\<lparr>console := console s @ [''TourPlayer: Invalid track index:'']\<rparr>"
  using assms by (auto simp: playTrack_def warn_def)

theorem playTrack_out_of_range_witness:
  "int (length (queue (app_player [track 0, track 1, track 2]))) \<le> 5
   \<and> playTrack 5 (app_player [track 0, track 1, track 2])
       = (app_player [track 0, track 1, track 2])\<lparr>console := [''TourPlayer: Invalid track index:'']\<rparr>
   \<and> trace (playTrack 5 (app_player [track 0, track 1, track 2])) = []
   \<and> currentIndex (playTrack 5 (app_player [track 0, track 1, track 2])) = 0
   \<and> queue (playTrack 5 (app_player [track 0, track 1, track 2])) = [track 0, track 1, track 2]"
proof -
  let ?s = "app_player [track 0, track 1, track 2]"
  have a: "int (length (queue ?s)) \<le> 5" by (simp add: example_defs loadQueue_def)
  then have "5 < 0 \<or> int (length (queue ?s)) \<le> 5" by simp
  from playTrack_out_of_range[OF this] a show ?thesis
    by (simp add: example_defs loadQueue_def)
qed

text \<open>
  Claim C10. On a non-empty queue, \<open>play()\<close> with \<open>currentIndex\<close> at or past the length of
  the queue sets \<open>currentIndex\<close> to 0 and starts an attempt for the first track: the track
  change it announces and the content it fetches are those of \<open>queue[0]\<close>. (The methods of
  the class keep the index inside a non-empty queue; the state arises when the application
  assigns the field or shortens the array it handed over.)
\<close>

theorem play_past_end_restarts:
  assumes "queue s \<noteq> []" and "length (queue s) \<le> currentIndex s"
  shows "play s = playArticle (queue s ! 0) (s\<lparr>currentIndex := 0\<rparr>)
       \<and> currentIndex (play s) = 0
       \<and> playbackId (play s) = playbackId s + 1
       \<and> trace (play s) = trace s
            @ (if speechSynth s then [SynthCancel] else [])
            @ (if onTrackChange s then [TrackChange (queue s ! 0) 0 (length (queue s))] else [])
            @ [Fetch (playbackId s + 1) (queue s ! 0)]"
  using assms by (simp add: play_def playArticle_def cancelSpeech_def emit_def Let_def)

theorem play_past_end_restarts_witness:
  "queue ((app_player [track 0, track 1])\<lparr>currentIndex := 5\<rparr>) \<noteq> []
   \<and> length (queue ((app_player [track 0, track 1])\<lparr>currentIndex := 5\<rparr>))
       \<le> currentIndex ((app_player [track 0, track 1])\<lparr>currentIndex := 5\<rparr>)
   \<and> currentIndex (play ((app_player [track 0, track 1])\<lparr>currentIndex := 5\<rparr>)) = 0
   \<and> trace (play ((app_player [track 0, track 1])\<lparr>currentIndex := 5\<rparr>))
       = [SynthCancel, TrackChange (track 0) 0 2, Fetch 1 (track 0)]"
proof -
  let ?s = "(app_player [track 0, track 1])\<lparr>currentIndex := 5\<rparr>"
  have q: "queue ?s = [track 0, track 1]" and i: "currentIndex ?s = 5" and sy: "speechSynth ?s"
    and ot: "onTrackChange ?s" and tr: "trace ?s = []" and pb: "playbackId ?s = 0"
    by (simp_all add: example_defs loadQueue_def)
  have a: "queue ?s \<noteq> []" using q by simp
  have b: "length (queue ?s) \<le> currentIndex ?s" using q i by simp
  from play_past_end_restarts[OF a b, THEN conjunct2] q sy ot tr pb
  have c: "currentIndex (play ?s) = 0"
    and d: "trace (play ?s) = [SynthCancel, TrackChange (track 0) 0 2, Fetch 1 (track 0)]"
    by simp_all
  from a b c d show ?thesis by blast
qed

text \<open>
  Claim C7. When the content fetch of a track is rejected or gives \<open>null\<close> or the empty
  string, the player reports the error through \<open>onError\<close> and then decides as the
  completion path \<open>_handleSpeechEnd\<close> does: it sets the advance timer if auto-play is
  enabled and the player has not been stopped manually, and none otherwise; the index, the
  attempt id, the queue and the playing flag stay as they are.
\<close>

theorem fetch_failure_decision:
  assumes "content_error r = Some m" and "onError s"
  shows "trace (playArticle_fetched p a r s) = trace s @ [Error m]
       \<and> advanceTimers (playArticle_fetched p a r s)
           = (if autoPlayEnabled s \<and> \<not> manuallyStopped s then advanceTimers s + 1 else advanceTimers s)
       \<and> advanceTimers (playArticle_fetched p a r s)
           = advanceTimers (handleSpeechEnd (Some (playbackId s)) s)
       \<and> currentIndex (playArticle_fetched p a r s) = currentIndex s
       \<and> playbackId (playArticle_fetched p a r s) = playbackId s
       \<and> queue (playArticle_fetched p a r s) = queue s
       \<and> isPlaying (playArticle_fetched p a r s) = isPlaying s"
proof -
  from assms(1) have e: "playArticle_fetched p a r s = playArticle_catch m s"
    by (cases r rule: content_error.cases) (auto simp: playArticle_fetched_def split: if_splits)
  show ?thesis unfolding e using assms(2)
    by (simp add: playArticle_catch_def handleSpeechEnd_def scheduleNext_def stopSilentAudio_def
        emit_def updateState_def clearMonitoring_def Let_def)
qed

theorem fetch_failure_decision_witness:
  "content_error (FetchResolved (Some [])) = Some ''No content available''
   \<and> onError (run [Play] (app_player [track 0, track 1]))
   \<and> trace (run [Play, Fetched 1 (track 0) (FetchResolved (Some []))] (app_player [track 0, track 1]))
       = [SynthCancel, TrackChange (track 0) 0 2, Fetch 1 (track 0), Error ''No content available'']
   \<and> advanceTimers (run [Play, Fetched 1 (track 0) (FetchResolved (Some []))] (app_player [track 0, track 1])) = 1
   \<and> advanceTimers (run [Play, Stop, Fetched 1 (track 0) (FetchResolved (Some []))] (app_player [track 0, track 1])) = 0"
proof -
  let ?s = "run [Play] (app_player [track 0, track 1])"
  let ?r = "FetchResolved (Some [])"
  have a: "content_error ?r = Some ''No content available''" by simp
  have b: "onError ?s" and tr: "trace ?s = [SynthCancel, TrackChange (track 0) 0 2, Fetch 1 (track 0)]"
    and au: "autoPlayEnabled ?s" and ms: "\<not> manuallyStopped ?s" and t: "advanceTimers ?s = 0"
    by (simp_all add: run_def handler_defs example_defs Let_def)
  have b2: "onError (stop ?s)" and au2: "autoPlayEnabled (stop ?s)" and ms2: "manuallyStopped (stop ?s)"
    and t2: "advanceTimers (stop ?s) = 0"
    by (simp_all add: run_def handler_defs example_defs Let_def)
  have r1: "run [Play, Fetched 1 (track 0) ?r] (app_player [track 0, track 1])
      = playArticle_fetched 1 (track 0) ?r ?s" by (simp add: run_def)
  have r2: "run [Play, Stop, Fetched 1 (track 0) ?r] (app_player [track 0, track 1])
      = playArticle_fetched 1 (track 0) ?r (stop ?s)" by (simp add: run_def)
  from fetch_failure_decision[OF a b, of 1 "track 0"] tr au ms t
  have c: "trace (playArticle_fetched 1 (track 0) ?r ?s)
        = [SynthCancel, TrackChange (track 0) 0 2, Fetch 1 (track 0), Error ''No content available'']"
    and d: "advanceTimers (playArticle_fetched 1 (track 0) ?r ?s) = 1" by simp_all
  from fetch_failure_decision[OF a b2, of 1 "track 0"] au2 ms2 t2
  have e: "advanceTimers (playArticle_fetched 1 (track 0) ?r (stop ?s)) = 0" by simp
  from a b c d e show ?thesis unfolding r1 r2 by blast
qed

text \<open>
  Claim C8. When the advance timer fires with \<open>currentIndex\<close> at the last track, the player
  does not advance: the index, the attempt id and the queue are unchanged, the silent audio
  is off, and the one notification is \<open>onStateChange\<close> with \<open>playing\<close> false, \<open>completed\<close>
  true and the message \<open>Completed tour of all places.\<close>
\<close>

theorem last_track_completes:
  assumes "queue s \<noteq> []" and "currentIndex s = length (queue s) - 1"
    and "onStateChange s" and "0 < advanceTimers s"
  shows "currentIndex (fire_advance s) = currentIndex s
       \<and> playbackId (fire_advance s) = playbackId s
       \<and> queue (fire_advance s) = queue s
       \<and> isPlaying (fire_advance s) = isPlaying s
       \<and> \<not> silentSource (fire_advance s)
       \<and> advanceTimers (fire_advance s) = advanceTimers s - 1
       \<and> trace (fire_advance s)
           = trace s @ [StateCompleted False True ''Completed tour of all places.'']"
proof -
  from assms(1,2) have nl: "\<not> int (currentIndex s) < int (length (queue s)) - 1"
    by (cases "queue s") auto
  let ?s1 = "s\<lparr>advanceTimers := advanceTimers s - 1\<rparr>"
  have "fire_advance s = scheduleNext_timer ?s1"
    using assms(4) by (simp add: fire_advance_def)
  moreover have "scheduleNext_timer ?s1
      = emit (StateCompleted False True ''Completed tour of all places.'') (stopSilentAudio ?s1)"
    using nl assms(3) by (simp add: scheduleNext_timer_def Let_def stopSilentAudio_def)
  ultimately show ?thesis by (simp add: emit_def stopSilentAudio_def)
qed

theorem last_track_completes_witness:
  "queue (run [Play, Fetched 1 (track 0) (FetchResolved None)] (app_player [track 0])) \<noteq> []
   \<and> currentIndex (run [Play, Fetched 1 (track 0) (FetchResolved None)] (app_player [track 0])) = 0
   \<and> advanceTimers (run [Play, Fetched 1 (track 0) (FetchResolved None)] (app_player [track 0])) = 1
   \<and> currentIndex (run [Play, Fetched 1 (track 0) (FetchResolved None), AdvanceFired] (app_player [track 0])) = 0
   \<and> trace (run [Play, Fetched 1 (track 0) (FetchResolved None), AdvanceFired] (app_player [track 0]))
       = [SynthCancel, TrackChange (track 0) 0 1, Fetch 1 (track 0), Error ''No content available'',
          StateCompleted False True ''Completed tour of all places.'']"
proof -
  let ?s = "run [Play, Fetched 1 (track 0) (FetchResolved None)] (app_player [track 0])"
  have q: "queue ?s = [track 0]" and i: "currentIndex ?s = 0" and o: "onStateChange ?s"
    and t: "advanceTimers ?s = 1"
    and tr: "trace ?s = [SynthCancel, TrackChange (track 0) 0 1, Fetch 1 (track 0), Error ''No content available'']"
    by (simp_all add: run_def handler_defs example_defs Let_def)
  have a: "queue ?s \<noteq> []" using q by simp
  have b: "currentIndex ?s = length (queue ?s) - 1" using q i by simp
  have c: "0 < advanceTimers ?s" using t by simp
  have r: "run [Play, Fetched 1 (track 0) (FetchResolved None), AdvanceFired] (app_player [track 0])
      = fire_advance ?s" by (simp add: run_def)
  from last_track_completes[OF a b o c] show ?thesis unfolding r using a i t tr by simp
qed

text \<open>The example narration: what the player has done by the time the utterance starts.\<close>

lemma narration_started_trace:
  "trace (run narration_started (app_player [track 0, track 1]))
     = [SynthCancel, TrackChange (track 0) 0 2, Fetch 1 (track 0),
        MediaMetadata (js ''Place'') 1 2, SetTimeout (SpeakDelay 1 (js ''Place. Hi.'')),
        SynthSpeak 1 0 (js ''Place. Hi.''), SetTimeout (ResumeCheck 1 0),
        StateChange True 0 2]
   \<and> isPlaying (run narration_started (app_player [track 0, track 1]))
   \<and> monitorInterval (run narration_started (app_player [track 0, track 1]))
   \<and> playbackId (run narration_started (app_player [track 0, track 1])) = 1"
  by code_simp

text \<open>A completion that arrives after \<open>stop()\<close> sets no advance timer and leaves the index.\<close>

lemma stopped_completion_does_not_advance:
  assumes "manuallyStopped s"
  shows "advanceTimers (utterance_onend p i now s) = advanceTimers s
       \<and> currentIndex (utterance_onend p i now s) = currentIndex s
       \<and> playbackId (utterance_onend p i now s) = playbackId s
       \<and> advanceTimers (monitor_tick now sp s) = advanceTimers s"
  using assms
  by (simp add: utterance_onend_def handleSpeechEnd_def resolve_def updateState_def emit_def
      clearMonitoring_def monitor_tick_def checkSpeechStatus_def Let_def)

text \<open>
  Claim C5 fails on the code at this input. A narration of track 0 of two ends and
  \<open>_scheduleNext\<close> sets the timer of the inter-track pause; \<open>stop()\<close> is called during the
  pause. \<open>stop()\<close> has no handle on the timer and its callback does not look at
  \<open>manuallyStopped\<close>: when it fires, \<open>currentIndex\<close> moves to 1, \<open>play()\<close> clears the
  manual-stop flag and track 1 is announced and fetched.
\<close>

theorem stop_leaves_advance_timer:
  "currentIndex (run (narration_started @ [UtteranceEnd 1 0 3000, Stop]) (app_player [track 0, track 1])) = 0
   \<and> manuallyStopped (run (narration_started @ [UtteranceEnd 1 0 3000, Stop]) (app_player [track 0, track 1]))
   \<and> advanceTimers (run (narration_started @ [UtteranceEnd 1 0 3000, Stop]) (app_player [track 0, track 1])) = 1
   \<and> currentIndex (run (narration_started @ [UtteranceEnd 1 0 3000, Stop, AdvanceFired]) (app_player [track 0, track 1])) = 1
   \<and> playbackId (run (narration_started @ [UtteranceEnd 1 0 3000, Stop, AdvanceFired]) (app_player [track 0, track 1])) = 2
   \<and> \<not> manuallyStopped (run (narration_started @ [UtteranceEnd 1 0 3000, Stop, AdvanceFired]) (app_player [track 0, track 1]))
   \<and> trace (run (narration_started @ [UtteranceEnd 1 0 3000, Stop, AdvanceFired]) (app_player [track 0, track 1]))
       = trace (run (narration_started @ [UtteranceEnd 1 0 3000, Stop]) (app_player [track 0, track 1]))
         @ [SynthCancel, TrackChange (track 1) 1 2, Fetch 2 (track 1)]"
  by code_simp

text \<open>
  Claim C6 fails on the code at this input. During the narration of track 0 of three the
  poll finds the engine silent and runs \<open>_handleSpeechEnd()\<close>, which sets the advance
  timer. The attempt id is not advanced by that, so the \<open>onend\<close> of the same utterance,
  arriving during the pause, passes the guard and runs \<open>_handleSpeechEnd\<close> again: a second
  not-playing notification and a second advance timer. The two timers move the index from
  0 to 2; track 1 is announced and fetched but superseded before it is spoken.
\<close>

theorem poll_then_onend_completes_twice:
  "advanceTimers (run (narration_started @ [MonitorTick 3000 False]) (app_player [track 0, track 1, track 2])) = 1
   \<and> playbackId (run (narration_started @ [MonitorTick 3000 False]) (app_player [track 0, track 1, track 2])) = 1
   \<and> advanceTimers (run (narration_started @ [MonitorTick 3000 False, UtteranceEnd 1 0 3100]) (app_player [track 0, track 1, track 2])) = 2
   \<and> trace (run (narration_started @ [MonitorTick 3000 False, UtteranceEnd 1 0 3100]) (app_player [track 0, track 1, track 2]))
       = trace (run narration_started (app_player [track 0, track 1, track 2]))
         @ [StateChange False 0 3, StateChange False 0 3]
   \<and> currentIndex (run (narration_started @ [MonitorTick 3000 False, UtteranceEnd 1 0 3100, AdvanceFired, AdvanceFired]) (app_player [track 0, track 1, track 2])) = 2
   \<and> trace (run (narration_started @ [MonitorTick 3000 False, UtteranceEnd 1 0 3100, AdvanceFired, AdvanceFired]) (app_player [track 0, track 1, track 2]))
       = trace (run (narration_started @ [MonitorTick 3000 False, UtteranceEnd 1 0 3100]) (app_player [track 0, track 1, track 2]))
         @ [SynthCancel, TrackChange (track 1) 1 3, Fetch 2 (track 1),
            SynthCancel, TrackChange (track 2) 2 3, Fetch 3 (track 2)]"
  by code_simp

end
